theory Spec2Isabelle
  imports Main "HOL-Library.Word"
begin

unbundle bit_operations_syntax

section \<open>Data model of \<open>Db/dblock.c\<close>\<close>

text \<open>
  \<open>gint\<close> is the machine word of the lock code. The inline assembly of the file uses the
  32-bit instructions \<open>movl\<close>, \<open>andl\<close> and \<open>cmpxchgl\<close> on it (\<open>ASM32\<close>), so it is a
  32-bit word here: \<open>+\<close> wraps around, \<open>sint\<close> reads the signed value that C compares.
\<close>

type_synonym gint = "32 word"

text \<open>
  A queue node (\<open>lock_queue_node\<close>, declared in \<open>dballoc.h\<close>). The fields \<open>class\<close>,
  \<open>state\<close> and \<open>next\<close> of the C struct carry the suffix \<open>_q\<close>.
\<close>

record lock_queue_node =
  class_q :: gint
  state_q :: gint
  next_q :: gint
  next_cell :: gint
  refcount :: gint

text \<open>
  The part of the memory segment that the lock code touches. \<open>global_lock\<close> is the
  contents of the sync word that \<open>locks.global_lock\<close> points to (simple locks); the
  other header fields belong to the queued locks. \<open>nodes\<close> is the store of the segment,
  read at a byte offset as a queue node, which is what
  \<open>(lock_queue_node *) offsettoptr(db, off)\<close> does. The header fields and the
  nodes are separate components: a node offset never aliases a header field.

  \<open>dbcheck\<close> is the answer of the host's test \<open>dbcheck(db)\<close> on the handle. The macro
  is declared outside this file, so its answer is a parameter of the segment. The code
  is modelled as compiled with \<open>CHECK\<close> defined, where every public function makes
  this test first.
\<close>

record db_memsegment_header =
  dbcheck :: bool
  global_lock :: gint
  tail :: gint
  next_writer :: gint
  reader_count :: gint
  freelist :: gint
  storage :: gint
  max_nodes :: gint
  nodes :: "gint \<Rightarrow> lock_queue_node"

definition WAFLAG :: gint where "WAFLAG = 1"
definition RC_INCR :: gint where "RC_INCR = 2"
definition LOCKQ_READ :: gint where "LOCKQ_READ = 2"
definition LOCKQ_WRITE :: gint where "LOCKQ_WRITE = 4"

subsection \<open>Atomic operations\<close>

text \<open>
  Each helper acts on the contents \<open>v\<close> of the word at \<open>ptr\<close>. The ones that return a
  value give the pair (returned value, new contents); the \<open>void\<close> ones give the new
  contents.
\<close>

definition atomic_increment :: "gint \<Rightarrow> gint \<Rightarrow> gint" where
  "atomic_increment v incr = v + incr"

definition atomic_and :: "gint \<Rightarrow> gint \<Rightarrow> gint" where
  "atomic_and v val = v AND val"

definition atomic_or :: "gint \<Rightarrow> gint \<Rightarrow> gint" where
  "atomic_or v val = v OR val"

definition fetch_and_add :: "gint \<Rightarrow> gint \<Rightarrow> gint \<times> gint" where
  "fetch_and_add v incr = (v, v + incr)"

definition fetch_and_store :: "gint \<Rightarrow> gint \<Rightarrow> gint \<times> gint" where
  "fetch_and_store v val = (v, val)"

definition compare_and_swap :: "gint \<Rightarrow> gint \<Rightarrow> gint \<Rightarrow> gint \<times> gint" where
  "compare_and_swap v old new = (if v = old then (1, new) else (0, v))"

subsection \<open>Outcome of a call\<close>

text \<open>
  The functions below give what one call does when no other thread runs during it.
  A spin loop of the source reads shared words that only another thread can change, so
  in such a run it either leaves at its first test or never: \<open>Spins db\<close> says that the
  call does not return and waits in the shared state \<open>db\<close>; \<open>Returns r db\<close> says that
  it returns \<open>r\<close> and leaves the shared state \<open>db\<close>.
\<close>

datatype outcome = Returns gint db_memsegment_header | Spins db_memsegment_header

definition set_node ::
  "(lock_queue_node \<Rightarrow> lock_queue_node) \<Rightarrow> gint \<Rightarrow> db_memsegment_header \<Rightarrow> db_memsegment_header"
where
  "set_node f p db = db\<lparr>nodes := (nodes db)(p := f (nodes db p))\<rparr>"


section \<open>Memory management for queued locks\<close>

text \<open>
  The push loop of \<open>free_lock\<close> (lines 866-877):
  \<open>do { t = freelist; tmp->next_cell = t; } while (!CAS(&freelist, t, node))\<close>.
  The loop goes round again only when the compare-and-swap fails.
\<close>

function free_lock_push :: "db_memsegment_header \<Rightarrow> gint \<Rightarrow> db_memsegment_header" where
  "free_lock_push db node =
     (let t = freelist db;
          db1 = set_node (\<lambda>n. n\<lparr>next_cell := t\<rparr>) node db;
          r = compare_and_swap (freelist db1) t node
      in if fst r \<noteq> 0 then db1\<lparr>freelist := snd r\<rparr>
         else free_lock_push (db1\<lparr>freelist := snd r\<rparr>) node)"
  by pat_completeness auto
termination
  by (relation "{}") (auto simp: compare_and_swap_def set_node_def)

text \<open>
  \<open>free_lock\<close> (lines 838-879): drop one reference (\<open>-2\<close>), then try to set the
  least significant bit of a reference count of 0; on success push the cell.
\<close>

definition free_lock :: "db_memsegment_header \<Rightarrow> gint \<Rightarrow> db_memsegment_header" where
  "free_lock db node =
     (let db1 = set_node (\<lambda>n. n\<lparr>refcount := snd (fetch_and_add (refcount n) (- 2))\<rparr>) node db;
          r = compare_and_swap (refcount (nodes db1 node)) 0 1;
          db2 = set_node (\<lambda>n. n\<lparr>refcount := snd r\<rparr>) node db1
      in if fst r \<noteq> 0 then free_lock_push db2 node else db2)"

text \<open>
  \<open>alloc_lock\<close> (lines 798-832): returns the offset of the allocated cell, or 0 at the
  end of the chain. A failed compare-and-swap on \<open>freelist\<close> releases the reference
  with \<open>free_lock\<close> and tries again.
\<close>

function alloc_lock :: "db_memsegment_header \<Rightarrow> gint \<times> db_memsegment_header" where
  "alloc_lock db =
     (let t = freelist db in
      if t = 0 then (0, db)
      else
        let db1 = set_node (\<lambda>n. n\<lparr>refcount := snd (fetch_and_add (refcount n) 2)\<rparr>) t db;
            r = compare_and_swap (freelist db1) t (next_cell (nodes db1 t));
            db2 = db1\<lparr>freelist := snd r\<rparr>
        in if fst r \<noteq> 0
           then (t, set_node (\<lambda>n. n\<lparr>refcount := snd (fetch_and_add (refcount n) (- 1))\<rparr>) t db2)
           else alloc_lock (free_lock db2 t))"
  by pat_completeness auto
termination
  by (relation "{}") (auto simp: compare_and_swap_def set_node_def)


text \<open>
  \<open>init_lock_queue\<close> (lines 763-789). \<open>SYN_VAR_PADDING\<close>, the size of a cell, is a
  macro of \<open>dballoc.h\<close> and a parameter here. The offsets are signed C integers: an
  addition or multiplication that overflows is undefined in C, and a loop that never
  ends gives no result either; both are \<open>None\<close>. \<open>tmp\<close> is \<open>None\<close> until the loop
  has assigned it, and \<open>tmp->next_cell = 0\<close> through the unassigned pointer is
  undefined too.
\<close>

definition sint_ok :: "int \<Rightarrow> bool" where
  "sint_ok k \<longleftrightarrow> - (2 ^ 31) \<le> k \<and> k < 2 ^ 31"

function init_lock_loop ::
  "gint \<Rightarrow> gint \<Rightarrow> gint \<Rightarrow> gint option \<Rightarrow> db_memsegment_header
     \<Rightarrow> (gint option \<times> db_memsegment_header) option"
where
  "init_lock_loop pad chunk_wall i tmp db =
     (if i <s chunk_wall then
        (if 0 < sint pad \<and> sint_ok (sint i + sint pad)
         then init_lock_loop pad chunk_wall (i + pad) (Some i)
                (set_node (\<lambda>n. n\<lparr>refcount := 1, next_cell := i + pad\<rparr>) i db)
         else None)
      else Some (tmp, db))"
  by pat_completeness auto
termination
proof (relation "measure (\<lambda>(pad, chunk_wall, i, tmp, db). nat (sint chunk_wall - sint i))")
  show "wf (measure (\<lambda>(pad :: gint, chunk_wall :: gint, i :: gint, tmp :: gint option,
                       db :: db_memsegment_header). nat (sint chunk_wall - sint i)))"
    by simp
next
  fix pad chunk_wall i :: gint and tmp :: "gint option" and db :: db_memsegment_header
  assume lt: "i <s chunk_wall" and ok: "0 < sint pad \<and> sint_ok (sint i + sint pad)"
  have "sint (i + pad) = sint i + sint pad"
    using ok by (simp add: sint_word_add signed_take_bit_int_eq_self sint_ok_def)
  with lt ok
  show "((pad, chunk_wall, i + pad, Some i,
          set_node (\<lambda>n. n\<lparr>refcount := 1, next_cell := i + pad\<rparr>) i db),
         (pad, chunk_wall, i, tmp, db))
        \<in> measure (\<lambda>(pad, chunk_wall, i, tmp, db). nat (sint chunk_wall - sint i))"
    by (simp add: word_sless_alt)
qed

definition init_lock_queue ::
  "gint \<Rightarrow> db_memsegment_header \<Rightarrow> (gint \<times> db_memsegment_header) option"
where
  "init_lock_queue SYN_VAR_PADDING db =
     (if \<not> dbcheck db then Some (- 1, db)
      else if sint_ok (sint (max_nodes db) * sint SYN_VAR_PADDING)
            \<and> sint_ok (sint (storage db) + sint (max_nodes db) * sint SYN_VAR_PADDING)
      then
        (let chunk_wall = storage db + max_nodes db * SYN_VAR_PADDING in
         case init_lock_loop SYN_VAR_PADDING chunk_wall (storage db) None db of
           None \<Rightarrow> None
         | Some (None, db1) \<Rightarrow> None
         | Some (Some tmp, db1) \<Rightarrow>
             Some (0, (set_node (\<lambda>n. n\<lparr>next_cell := 0\<rparr>) tmp db1)\<lparr>freelist := storage db1\<rparr>))
      else None)"


declare free_lock_push.simps [simp del] alloc_lock.simps [simp del] init_lock_loop.simps [simp del]

section \<open>Read and write transaction support\<close>

text \<open>
  Each public function is compiled either with simple locks or with
  \<open>QUEUED_LOCKS\<close>; the build flag is the first argument of its model.
\<close>

subsection \<open>Segments of the queued code\<close>

text \<open>
  Lines 321-358 of \<open>wg_start_write\<close>: initialise the node, swap it into \<open>tail\<close> and
  link it behind the predecessor \<open>prev\<close>, or, with no predecessor, register as the next
  writer and clear the own blocked bit when there is no reader.
\<close>

definition write_enqueue :: "gint \<Rightarrow> db_memsegment_header \<Rightarrow> db_memsegment_header" where
  "write_enqueue lock db =
     (let db1 = set_node (\<lambda>n. n\<lparr>class_q := LOCKQ_WRITE, next_q := 0, state_q := 1\<rparr>) lock db;
          r = fetch_and_store (tail db1) lock;
          prev = fst r;
          db2 = db1\<lparr>tail := snd r\<rparr>
      in if prev = 0 then
           (let db3 = db2\<lparr>next_writer := lock\<rparr> in
            if reader_count db3 = 0 then
              (let w = fetch_and_store (next_writer db3) 0;
                   db4 = db3\<lparr>next_writer := snd w\<rparr>
               in if fst w = lock
                  then set_node (\<lambda>n. n\<lparr>state_q := atomic_and (state_q n) (NOT 1)\<rparr>) lock db4
                  else db4)
            else db3)
         else
           set_node (\<lambda>n. n\<lparr>next_q := lock\<rparr>) prev
             (set_node (\<lambda>n. n\<lparr>state_q := atomic_or (state_q n) LOCKQ_WRITE\<rparr>) prev db2))"

text \<open>
  Lines 563-637 of \<open>wg_start_read\<close> without the spin loop. The Boolean says whether
  the branch of lines 588-630 was taken (the predecessor is a writer or a blocked
  reader), where the caller may have to wait for its blocked bit.
\<close>

definition read_enqueue ::
  "gint \<Rightarrow> db_memsegment_header \<Rightarrow> bool \<times> db_memsegment_header"
where
  "read_enqueue lock db =
     (let db1 = set_node (\<lambda>n. n\<lparr>class_q := LOCKQ_READ, next_q := 0, state_q := 1\<rparr>) lock db;
          r = fetch_and_store (tail db1) lock;
          prev = fst r;
          db2 = db1\<lparr>tail := snd r\<rparr>
      in if prev = 0 then
           (False,
            set_node (\<lambda>n. n\<lparr>state_q := atomic_and (state_q n) (NOT 1)\<rparr>) lock
              (db2\<lparr>reader_count := atomic_increment (reader_count db2) 1\<rparr>))
         else if class_q (nodes db2 prev) AND LOCKQ_WRITE \<noteq> 0 then
           (True, set_node (\<lambda>n. n\<lparr>next_q := lock\<rparr>) prev db2)
         else
           (let c = compare_and_swap (state_q (nodes db2 prev)) 1 (1 OR LOCKQ_READ);
                db3 = set_node (\<lambda>n. n\<lparr>state_q := snd c\<rparr>) prev db2
            in if fst c \<noteq> 0 then
                 (True, set_node (\<lambda>n. n\<lparr>next_q := lock\<rparr>) prev db3)
               else
                 (False,
                  set_node (\<lambda>n. n\<lparr>state_q := atomic_and (state_q n) (NOT 1)\<rparr>) lock
                    (set_node (\<lambda>n. n\<lparr>next_q := lock\<rparr>) prev
                       (db3\<lparr>reader_count := atomic_increment (reader_count db3) 1\<rparr>)))))"

text \<open>Lines 649-652: count the reader that follows and clear its blocked bit.\<close>

definition read_unblock_succ :: "gint \<Rightarrow> db_memsegment_header \<Rightarrow> db_memsegment_header" where
  "read_unblock_succ lock db =
     (let db1 = db\<lparr>reader_count := atomic_increment (reader_count db) 1\<rparr>
      in set_node (\<lambda>n. n\<lparr>state_q := atomic_and (state_q n) (NOT 1)\<rparr>) (next_q (nodes db1 lock)) db1)"

text \<open>
  Lines 645-655, the label \<open>rd_lock_cont\<close>: with the successor-is-reader hint set, wait
  in \<open>while(!lockp->next);\<close> and unblock the successor; then return the token.
\<close>

definition rd_lock_cont :: "gint \<Rightarrow> db_memsegment_header \<Rightarrow> outcome" where
  "rd_lock_cont lock db =
     (if state_q (nodes db lock) AND LOCKQ_READ \<noteq> 0 then
        (if next_q (nodes db lock) = 0 then Spins db
         else Returns lock (read_unblock_succ lock db))
      else Returns lock db)"

text \<open>
  The test of lines 443 and 710,
  \<open>lockp->next || !compare_and_swap(&(dbh->locks.tail), lock, 0)\<close>: the
  compare-and-swap runs only when \<open>next\<close> is 0.
\<close>

definition end_succ_test :: "gint \<Rightarrow> db_memsegment_header \<Rightarrow> bool \<times> db_memsegment_header" where
  "end_succ_test lock db =
     (if next_q (nodes db lock) \<noteq> 0 then (True, db)
      else (let c = compare_and_swap (tail db) lock 0
            in (fst c = 0, db\<lparr>tail := snd c\<rparr>)))"

text \<open>Lines 447-452 of \<open>wg_end_write\<close>, after the wait for \<open>lockp->next\<close>.\<close>

definition write_unblock_succ :: "gint \<Rightarrow> db_memsegment_header \<Rightarrow> db_memsegment_header" where
  "write_unblock_succ lock db =
     (let nextp = next_q (nodes db lock);
          db1 = (if class_q (nodes db nextp) AND LOCKQ_READ \<noteq> 0
                 then db\<lparr>reader_count := atomic_increment (reader_count db) 1\<rparr> else db)
      in set_node (\<lambda>n. n\<lparr>state_q := atomic_and (state_q n) (NOT 1)\<rparr>) nextp db1)"

text \<open>Lines 718-719 of \<open>wg_end_read\<close>, after the wait for \<open>lockp->next\<close>.\<close>

definition end_read_set_writer :: "gint \<Rightarrow> db_memsegment_header \<Rightarrow> db_memsegment_header" where
  "end_read_set_writer lock db =
     (if state_q (nodes db lock) AND LOCKQ_WRITE \<noteq> 0
      then db\<lparr>next_writer := next_q (nodes db lock)\<rparr> else db)"

text \<open>Line 721: \<open>fetch_and_add(&(dbh->locks.reader_count), -1)\<close>, with the value it returns.\<close>

definition end_read_decr :: "db_memsegment_header \<Rightarrow> gint \<times> db_memsegment_header" where
  "end_read_decr db =
     (let r = fetch_and_add (reader_count db) (- 1) in (fst r, db\<lparr>reader_count := snd r\<rparr>))"

text \<open>Lines 724-729: swap 0 into \<open>next_writer\<close> and unblock the writer found there.\<close>

definition end_read_unblock_writer :: "db_memsegment_header \<Rightarrow> db_memsegment_header" where
  "end_read_unblock_writer db =
     (let r = fetch_and_store (next_writer db) 0;
          w = fst r;
          db1 = db\<lparr>next_writer := snd r\<rparr>
      in if w \<noteq> 0
         then set_node (\<lambda>n. n\<lparr>state_q := atomic_and (state_q n) (NOT 1)\<rparr>) w db1
         else db1)"

text \<open>Lines 721-730 together: the last reader hands the lock to the next writer.\<close>

definition end_read_handoff :: "db_memsegment_header \<Rightarrow> db_memsegment_header" where
  "end_read_handoff db =
     (let r = end_read_decr db
      in if fst r = 1 then end_read_unblock_writer (snd r) else snd r)"

text \<open>
  Lines 710-720 of a call of \<open>wg_end_read\<close> that gets past them (it does not wait for
  ever in line 712): the shared state in which line 721 runs.
\<close>

definition end_read_pre :: "gint \<Rightarrow> db_memsegment_header \<Rightarrow> db_memsegment_header" where
  "end_read_pre lock db =
     (let s = end_succ_test lock db
      in if fst s then end_read_set_writer lock (snd s) else snd s)"

subsection \<open>The spin loops of the simple locks\<close>

text \<open>
  Lines 277-312: every pass tests \<open>!(*gl) && compare_and_swap(gl, 0, WAFLAG)\<close>.
\<close>

definition spin_write :: "db_memsegment_header \<Rightarrow> outcome" where
  "spin_write db =
     (if global_lock db = 0 then
        (let c = compare_and_swap (global_lock db) 0 WAFLAG
         in if fst c \<noteq> 0 then Returns 1 (db\<lparr>global_lock := snd c\<rparr>) else Spins db)
      else Spins db)"

text \<open>Lines 528-554: every pass tests \<open>!((*gl) & WAFLAG)\<close>.\<close>

definition spin_read :: "db_memsegment_header \<Rightarrow> outcome" where
  "spin_read db = (if global_lock db AND WAFLAG = 0 then Returns 1 db else Spins db)"

subsection \<open>The public functions\<close>

definition wg_start_write :: "bool \<Rightarrow> db_memsegment_header \<Rightarrow> outcome" where
  "wg_start_write QUEUED_LOCKS db =
     (if \<not> dbcheck db then Returns 0 db
      else if \<not> QUEUED_LOCKS then
        (let c = compare_and_swap (global_lock db) 0 WAFLAG;
             db1 = db\<lparr>global_lock := snd c\<rparr>
         in if fst c \<noteq> 0 then Returns 1 db1 else spin_write db1)
      else
        (let a = alloc_lock db; lock = fst a
         in if lock = 0 then Returns 0 (snd a)
            else
              (let db1 = write_enqueue lock (snd a)
               in if state_q (nodes db1 lock) AND 1 \<noteq> 0 then Spins db1
                  else Returns lock db1)))"

definition wg_end_write :: "bool \<Rightarrow> db_memsegment_header \<Rightarrow> gint \<Rightarrow> outcome" where
  "wg_end_write QUEUED_LOCKS db lock =
     (if \<not> dbcheck db then Returns 0 db
      else if \<not> QUEUED_LOCKS then
        Returns 1 (db\<lparr>global_lock := atomic_and (global_lock db) (NOT WAFLAG)\<rparr>)
      else
        (let s = end_succ_test lock db; db1 = snd s
         in if fst s then
              (if next_q (nodes db1 lock) = 0 then Spins db1
               else Returns 1 (free_lock (write_unblock_succ lock db1) lock))
            else Returns 1 (free_lock db1 lock)))"

definition wg_start_read :: "bool \<Rightarrow> db_memsegment_header \<Rightarrow> outcome" where
  "wg_start_read QUEUED_LOCKS db =
     (if \<not> dbcheck db then Returns 0 db
      else if \<not> QUEUED_LOCKS then
        (let db1 = db\<lparr>global_lock := snd (fetch_and_add (global_lock db) RC_INCR)\<rparr>
         in if global_lock db1 AND WAFLAG = 0 then Returns 1 db1 else spin_read db1)
      else
        (let a = alloc_lock db; lock = fst a
         in if lock = 0 then Returns 0 (snd a)
            else
              (let e = read_enqueue lock (snd a); db1 = snd e
               in if fst e \<and> state_q (nodes db1 lock) AND 1 \<noteq> 0 then Spins db1
                  else rd_lock_cont lock db1)))"

definition wg_end_read :: "bool \<Rightarrow> db_memsegment_header \<Rightarrow> gint \<Rightarrow> outcome" where
  "wg_end_read QUEUED_LOCKS db lock =
     (if \<not> dbcheck db then Returns 0 db
      else if \<not> QUEUED_LOCKS then
        Returns 1 (db\<lparr>global_lock := snd (fetch_and_add (global_lock db) (- RC_INCR))\<rparr>)
      else
        (let s = end_succ_test lock db; db1 = snd s
         in if fst s \<and> next_q (nodes db1 lock) = 0 then Spins db1
            else
              (let db2 = (if fst s then end_read_set_writer lock db1 else db1)
               in Returns 1 (free_lock (end_read_handoff db2) lock))))"


text \<open>The value a call returned, and the shared state it left or waits in.\<close>

fun returned :: "outcome \<Rightarrow> gint option" where
  "returned (Returns r db) = Some r"
| "returned (Spins db) = None"

fun state_after :: "outcome \<Rightarrow> db_memsegment_header" where
  "state_after (Returns r db) = db"
| "state_after (Spins db) = db"

section \<open>Interleaved executions of the queued locks\<close>

text \<open>
  Threads that share one segment. A thread is idle, inside one of the four public
  functions, or between the return of a start function and its call of the matching end
  function (\<open>Reading\<close>, \<open>Writing\<close>, with the token it holds). The program counter names
  the place in the source where the thread will continue:

  \<^item> \<open>SR_spin\<close>: \<open>wg_start_read\<close>, the wait for the own blocked bit (lines 594-629);
  \<^item> \<open>SR_cont\<close>: the label \<open>rd_lock_cont\<close> (line 645);
  \<^item> \<open>SR_succ\<close>: \<open>while(!lockp->next);\<close> (line 648) and lines 649-652;
  \<^item> \<open>ER_wait\<close>: \<open>wg_end_read\<close>, \<open>while(!lockp->next);\<close> (line 712) and lines 718-719;
  \<^item> \<open>ER_decr\<close>: line 721; \<open>ER_xchg\<close>: lines 724-729; \<open>ER_free\<close>: line 731;
  \<^item> \<open>SW_spin\<close>: \<open>wg_start_write\<close>, the wait for the own blocked bit (lines 360-397);
  \<^item> \<open>EW_wait\<close>: \<open>wg_end_write\<close>, \<open>while(!lockp->next);\<close> (line 445) and lines 447-452;
  \<^item> \<open>EW_free\<close>: line 455.

  One step of a thread runs the code from its program counter to the next one without
  interruption, so every execution of this model is an interleaving of the atomic
  operations of the real threads. A waiting thread whose condition does not hold yet
  stays where it is.
\<close>

datatype pc =
    Idle
  | SR_spin gint | SR_cont gint | SR_succ gint
  | Reading gint
  | ER_wait gint | ER_decr gint | ER_xchg gint | ER_free gint
  | SW_spin gint
  | Writing gint
  | EW_wait gint | EW_free gint

datatype event = Call_read | Call_write | Step

fun thr_step :: "event \<Rightarrow> pc \<Rightarrow> db_memsegment_header \<Rightarrow> pc \<times> db_memsegment_header" where
  "thr_step Call_read Idle db =
     (if \<not> dbcheck db then (Idle, db)
      else let a = alloc_lock db; lock = fst a
           in if lock = 0 then (Idle, snd a)
              else let e = read_enqueue lock (snd a)
                   in (if fst e then SR_spin lock else SR_cont lock, snd e))"
| "thr_step Call_write Idle db =
     (if \<not> dbcheck db then (Idle, db)
      else let a = alloc_lock db; lock = fst a
           in if lock = 0 then (Idle, snd a)
              else (SW_spin lock, write_enqueue lock (snd a)))"
| "thr_step Step (SR_spin lock) db =
     (if state_q (nodes db lock) AND 1 = 0 then SR_cont lock else SR_spin lock, db)"
| "thr_step Step (SR_cont lock) db =
     (if state_q (nodes db lock) AND LOCKQ_READ \<noteq> 0 then SR_succ lock else Reading lock, db)"
| "thr_step Step (SR_succ lock) db =
     (if next_q (nodes db lock) = 0 then (SR_succ lock, db)
      else (Reading lock, read_unblock_succ lock db))"
| "thr_step Step (Reading lock) db =
     (if \<not> dbcheck db then (Idle, db)
      else let s = end_succ_test lock db
           in (if fst s then ER_wait lock else ER_decr lock, snd s))"
| "thr_step Step (ER_wait lock) db =
     (if next_q (nodes db lock) = 0 then (ER_wait lock, db)
      else (ER_decr lock, end_read_set_writer lock db))"
| "thr_step Step (ER_decr lock) db =
     (let r = end_read_decr db
      in (if fst r = 1 then ER_xchg lock else ER_free lock, snd r))"
| "thr_step Step (ER_xchg lock) db = (ER_free lock, end_read_unblock_writer db)"
| "thr_step Step (ER_free lock) db = (Idle, free_lock db lock)"
| "thr_step Step (SW_spin lock) db =
     (if state_q (nodes db lock) AND 1 = 0 then Writing lock else SW_spin lock, db)"
| "thr_step Step (Writing lock) db =
     (if \<not> dbcheck db then (Idle, db)
      else let s = end_succ_test lock db
           in (if fst s then EW_wait lock else EW_free lock, snd s))"
| "thr_step Step (EW_wait lock) db =
     (if next_q (nodes db lock) = 0 then (EW_wait lock, db)
      else (EW_free lock, write_unblock_succ lock db))"
| "thr_step Step (EW_free lock) db = (Idle, free_lock db lock)"
| "thr_step _ p db = (p, db)"

text \<open>
  A system is the shared segment and the program counter of every thread. A schedule
  is a list of (thread, event) pairs; \<open>run\<close> performs them in order with the step
  function of the build.
\<close>

record 'p system =
  shared :: db_memsegment_header
  pcs :: "nat \<Rightarrow> 'p"

definition sys_step ::
  "(event \<Rightarrow> 'p \<Rightarrow> db_memsegment_header \<Rightarrow> 'p \<times> db_memsegment_header)
     \<Rightarrow> 'p system \<Rightarrow> nat \<times> event \<Rightarrow> 'p system"
where
  "sys_step step s x =
     (let r = step (snd x) (pcs s (fst x)) (shared s)
      in \<lparr>shared = snd r, pcs = (pcs s)(fst x := fst r)\<rparr>)"

definition run ::
  "(event \<Rightarrow> 'p \<Rightarrow> db_memsegment_header \<Rightarrow> 'p \<times> db_memsegment_header)
     \<Rightarrow> (nat \<times> event) list \<Rightarrow> 'p system \<Rightarrow> 'p system"
where
  "run step sched s = foldl (sys_step step) s sched"

fun in_read :: "pc \<Rightarrow> bool" where
  "in_read (Reading lock) = True"
| "in_read _ = False"

fun in_write :: "pc \<Rightarrow> bool" where
  "in_write (Writing lock) = True"
| "in_write _ = False"


section \<open>Interleaved executions of the simple locks\<close>

text \<open>
  The same for the build without \<open>QUEUED_LOCKS\<close>. The program counters:

  \<^item> \<open>S_wspin\<close>: \<open>wg_start_write\<close>, the spin loop of lines 277-312, after the first
    compare-and-swap (lines 250-268) failed;
  \<^item> \<open>S_rwait\<close>: \<open>wg_start_read\<close> after the fetch-and-add of line 499: the test of lines
    507-519 and the spin loop of lines 528-554, which make the same test;
  \<^item> \<open>S_writing\<close>, \<open>S_reading\<close>: between the return of the start function and the
    call of the end function.

  Every step holds at most one access that writes the sync word, and the reads that
  come before a write in the step have no effect of their own, so the steps give all
  interleavings of the real threads.
\<close>

datatype spc = S_idle | S_wspin | S_writing | S_rwait | S_reading

fun simple_step :: "event \<Rightarrow> spc \<Rightarrow> db_memsegment_header \<Rightarrow> spc \<times> db_memsegment_header" where
  "simple_step Call_write S_idle db =
     (case wg_start_write False db of
        Returns r db' \<Rightarrow> (if r = 0 then S_idle else S_writing, db')
      | Spins db' \<Rightarrow> (S_wspin, db'))"
| "simple_step Step S_wspin db =
     (case spin_write db of
        Returns r db' \<Rightarrow> (S_writing, db')
      | Spins db' \<Rightarrow> (S_wspin, db'))"
| "simple_step Step S_writing db = (S_idle, state_after (wg_end_write False db 1))"
| "simple_step Call_read S_idle db =
     (if \<not> dbcheck db then (S_idle, db)
      else (S_rwait, db\<lparr>global_lock := snd (fetch_and_add (global_lock db) RC_INCR)\<rparr>))"
| "simple_step Step S_rwait db =
     (case spin_read db of
        Returns r db' \<Rightarrow> (S_reading, db')
      | Spins db' \<Rightarrow> (S_rwait, db'))"
| "simple_step Step S_reading db = (S_idle, state_after (wg_end_read False db 1))"
| "simple_step _ p db = (p, db)"

definition writers :: "spc system \<Rightarrow> nat set" where
  "writers s = {t. pcs s t = S_writing}"

definition readers :: "spc system \<Rightarrow> nat set" where
  "readers s = {t. pcs s t = S_rwait \<or> pcs s t = S_reading}"

text \<open>
  The invariant of the simple locks with threads \<open>0, \<dots>, N - 1\<close>: the sync word is the
  writer flag plus \<open>RC_INCR\<close> for every reader that has added itself, there is at most
  one writer inside, and while a writer is inside no reader is.
\<close>

definition simple_inv :: "nat \<Rightarrow> spc system \<Rightarrow> bool" where
  "simple_inv N s \<longleftrightarrow>
     dbcheck (shared s) \<and> writers s \<union> readers s \<subseteq> {..<N}
     \<and> global_lock (shared s) = of_nat (card (writers s) + 2 * card (readers s))
     \<and> card (writers s) \<le> 1
     \<and> (writers s = {} \<or> {t. pcs s t = S_reading} = {})"

section \<open>Concrete segments\<close>

definition empty_node :: lock_queue_node where
  "empty_node = \<lparr>class_q = 0, state_q = 0, next_q = 0, next_cell = 0, refcount = 0\<rparr>"

text \<open>
  A valid segment as the database initialisation leaves the lock header before
  \<open>init_lock_queue\<close> runs: all lock words 0, the arena of \<open>n\<close> cells at offset 1024.
\<close>

definition segment :: "gint \<Rightarrow> db_memsegment_header" where
  "segment n =
     \<lparr>dbcheck = True, global_lock = 0, tail = 0, next_writer = 0, reader_count = 0,
      freelist = 0, storage = 1024, max_nodes = n, nodes = (\<lambda>_. empty_node)\<rparr>"

text \<open>
  One active reader left, with the node at offset 1024, and behind it a blocked writer
  with the node at offset 1152, registered as next writer.
\<close>

definition last_reader_segment :: db_memsegment_header where
  "last_reader_segment =
     (segment 2)\<lparr>tail := 1152, reader_count := 1, next_writer := 1152,
       nodes := (\<lambda>_. empty_node)
         (1024 := \<lparr>class_q = LOCKQ_READ, state_q = LOCKQ_WRITE, next_q = 1152,
                   next_cell = 0, refcount = 2\<rparr>,
          1152 := \<lparr>class_q = LOCKQ_WRITE, state_q = 1, next_q = 0,
                   next_cell = 0, refcount = 2\<rparr>)\<rparr>"

text \<open>
  The pool after \<open>init_lock_queue\<close> with cells of 128 bytes, the header words at 0 as
  the database initialisation left them.
\<close>

definition initialised :: "gint \<Rightarrow> db_memsegment_header" where
  "initialised n =
     (case init_lock_queue 128 (segment n) of Some (r, db) \<Rightarrow> db | None \<Rightarrow> segment n)"

definition idle_system :: "db_memsegment_header \<Rightarrow> pc system" where
  "idle_system db = \<lparr>shared = db, pcs = (\<lambda>_. Idle)\<rparr>"

text \<open>
  Four threads. Thread 0 reads and starts to leave: it has taken \<open>reader_count\<close> from 1
  to 0 (line 721) and stops before line 724. Threads 1 and 2 start to read. Thread 3
  starts to write and waits behind the node of thread 2. Thread 2 leaves: it registers
  thread 3 as next writer (line 719) and takes \<open>reader_count\<close> from 2 to 1. Thread 0
  goes on at line 724, and thread 3 looks at its blocked bit again.
\<close>

definition race_schedule :: "(nat \<times> event) list" where
  "race_schedule =
     [(0, Call_read), (0, Step), (0, Step), (0, Step),
      (1, Call_read), (1, Step),
      (2, Call_read), (2, Step),
      (3, Call_write),
      (2, Step), (2, Step), (2, Step),
      (0, Step),
      (3, Step)]"

section \<open>The cells of the arena and the free list\<close>

text \<open>The offset of cell number \<open>k\<close> of an arena at \<open>base\<close> with cells of \<open>pad\<close> bytes.\<close>

definition cell :: "gint \<Rightarrow> gint \<Rightarrow> nat \<Rightarrow> gint" where
  "cell base pad k = base + of_nat k * pad"

text \<open>
  An arena that \<open>init_lock_queue\<close> can set up: at least one cell, cells of positive
  size, a positive offset, and the end of the arena within the signed range of \<open>gint\<close>.
\<close>

definition arena_ok :: "gint \<Rightarrow> db_memsegment_header \<Rightarrow> bool" where
  "arena_ok pad db \<longleftrightarrow>
     1 \<le> sint (max_nodes db) \<and> 0 < sint pad \<and> 0 < sint (storage db)
     \<and> sint_ok (sint (storage db) + sint (max_nodes db) * sint pad)"

text \<open>What a loop of \<open>n\<close> passes from offset \<open>i\<close> writes into the nodes.\<close>

fun init_nodes ::
  "gint \<Rightarrow> gint \<Rightarrow> nat \<Rightarrow> (gint \<Rightarrow> lock_queue_node) \<Rightarrow> gint \<Rightarrow> lock_queue_node"
where
  "init_nodes pad i 0 nd = nd"
| "init_nodes pad i (Suc n) nd =
     init_nodes pad (i + pad) n (nd(i := (nd i)\<lparr>refcount := 1, next_cell := i + pad\<rparr>))"

definition init_result :: "gint \<Rightarrow> db_memsegment_header \<Rightarrow> db_memsegment_header" where
  "init_result pad db =
     (let n = nat (sint (max_nodes db));
          nd = init_nodes pad (storage db) n (nodes db);
          l = cell (storage db) pad (n - 1)
      in db\<lparr>nodes := nd(l := (nd l)\<lparr>next_cell := 0\<rparr>), freelist := storage db\<rparr>)"

text \<open>
  \<open>chain nd p cs\<close>: following \<open>next_cell\<close> from the offset \<open>p\<close> visits exactly the
  cells \<open>cs\<close>, in this order, and then reaches 0.
\<close>

fun chain :: "(gint \<Rightarrow> lock_queue_node) \<Rightarrow> gint \<Rightarrow> gint list \<Rightarrow> bool" where
  "chain nd p [] \<longleftrightarrow> p = 0"
| "chain nd p (c # cs) \<longleftrightarrow> p = c \<and> c \<noteq> 0 \<and> chain nd (next_cell (nd c)) cs"

text \<open>
  A sequential run of the allocator: \<open>Alloc\<close> calls \<open>alloc_lock\<close>, \<open>Free node\<close> calls
  \<open>free_lock\<close> on a node that is held. The second component lists the nodes that were
  allocated and not freed yet; freeing any other node is not a run (\<open>None\<close>).
\<close>

datatype pool_op = Alloc | Free gint

fun run_pool ::
  "pool_op list \<Rightarrow> db_memsegment_header \<times> gint list \<Rightarrow> (db_memsegment_header \<times> gint list) option"
where
  "run_pool [] st = Some st"
| "run_pool (Alloc # ops) (db, held) =
     (let a = alloc_lock db
      in run_pool ops (snd a, if fst a = 0 then held else fst a # held))"
| "run_pool (Free node # ops) (db, held) =
     (if node \<in> set held then run_pool ops (free_lock db node, remove1 node held) else None)"

text \<open>
  The invariant of such a run over the cells \<open>C\<close>: the free list is a chain of distinct
  cells with reference count 1, the held cells have reference count 2, and the two
  together are the cells of the arena.
\<close>

definition pool_inv :: "gint set \<Rightarrow> db_memsegment_header \<Rightarrow> gint list \<Rightarrow> gint list \<Rightarrow> bool" where
  "pool_inv C db cs held \<longleftrightarrow>
     chain (nodes db) (freelist db) cs \<and> distinct (cs @ held) \<and> set cs \<union> set held = C
     \<and> 0 \<notin> C \<and> list_all (\<lambda>c. refcount (nodes db c) = 1) cs
     \<and> list_all (\<lambda>c. refcount (nodes db c) = 2) held"

text \<open>A run on a pool of two cells that meets the empty free list and frees every cell.\<close>

definition pool_ops :: "pool_op list" where
  "pool_ops = [Alloc, Alloc, Alloc, Free 1024, Alloc, Free 1152, Free 1024]"

section \<open>Initialisation of the cells\<close>

lemma sint_offset:
  assumes "sint_ok (sint i + int k * sint pad)"
  shows "sint (i + of_nat k * pad :: gint) = sint i + int k * sint pad"
proof -
  have "i + of_nat k * pad = word_of_int (sint i + int k * sint pad)"
    by simp
  then have "sint (i + of_nat k * pad) = signed_take_bit 31 (sint i + int k * sint pad)"
    by (simp only: sint_sbintrunc') simp
  with assms show ?thesis
    by (simp add: sint_ok_def signed_take_bit_int_eq_self)
qed

lemma sint_offset1:
  assumes "sint_ok (sint i + sint pad)"
  shows "sint (i + pad :: gint) = sint i + sint pad"
  using sint_offset [of i 1 pad] assms by simp

lemma init_lock_loop_closed:
  assumes "0 < sint pad" and "sint i + int n * sint pad = sint chunk_wall"
  shows "init_lock_loop pad chunk_wall i tmp db
         = Some (if n = 0 then tmp else Some (i + of_nat (n - 1) * pad),
                 db\<lparr>nodes := init_nodes pad i n (nodes db)\<rparr>)"
  using assms
proof (induction n arbitrary: i tmp db)
  case 0
  then show ?case by (subst init_lock_loop.simps) (simp add: word_sless_alt)
next
  case (Suc n)
  have nn: "0 \<le> int n * sint pad"
    using Suc.prems(1) by simp
  have expand: "sint i + sint pad + int n * sint pad = sint chunk_wall"
    using Suc.prems(2) by (simp add: algebra_simps)
  have lt: "i <s chunk_wall"
    unfolding word_sless_alt using nn expand Suc.prems(1) by linarith
  have le: "sint i + sint pad \<le> sint chunk_wall"
    using nn expand by linarith
  have ok: "sint_ok (sint i + sint pad)"
    using le Suc.prems(1) sint_lt [of chunk_wall] sint_ge [of i] by (simp add: sint_ok_def)
  have step: "sint (i + pad) + int n * sint pad = sint chunk_wall"
    using expand ok by (simp add: sint_offset1)
  have ih: "init_lock_loop pad chunk_wall (i + pad) (Some i)
              (set_node (\<lambda>n. n\<lparr>refcount := 1, next_cell := i + pad\<rparr>) i db)
            = Some (if n = 0 then Some i else Some (i + pad + of_nat (n - 1) * pad),
                 (set_node (\<lambda>n. n\<lparr>refcount := 1, next_cell := i + pad\<rparr>) i db)
                   \<lparr>nodes := init_nodes pad (i + pad) n
                      (nodes (set_node (\<lambda>n. n\<lparr>refcount := 1, next_cell := i + pad\<rparr>) i db))\<rparr>)"
    using Suc.IH [OF Suc.prems(1) step] .
  have last: "(if n = 0 then Some i else Some (i + pad + of_nat (n - 1) * pad))
              = Some (i + of_nat n * pad)"
    by (cases n) (simp_all add: algebra_simps)
  show ?case
    using lt ok Suc.prems(1) ih
    by (subst init_lock_loop.simps) (simp add: last set_node_def)
qed


lemma sint_ok_between:
  assumes "0 < sint (pad :: gint)" and "k \<le> n" and "sint_ok (sint (i :: gint) + int n * sint pad)"
  shows "sint_ok (sint i + int k * sint pad)"
proof -
  have "int k * sint pad \<le> int n * sint pad"
    using assms(1,2) by (simp add: mult_right_mono)
  moreover have "0 \<le> int k * sint pad"
    using assms(1) by simp
  ultimately show ?thesis
    using assms(3) sint_ge [of i] unfolding sint_ok_def by simp
qed

lemma sint_cell:
  assumes "0 < sint pad" and "k \<le> n" and "sint_ok (sint i + int n * sint pad)"
  shows "sint (cell i pad k) = sint i + int k * sint pad"
  unfolding cell_def using sint_ok_between [OF assms] by (rule sint_offset)

lemma cell_inj:
  assumes "0 < sint pad" and "sint_ok (sint i + int n * sint pad)"
    and "k \<le> n" and "k' \<le> n" and "cell i pad k = cell i pad k'"
  shows "k = k'"
proof -
  have "sint (cell i pad k) = sint (cell i pad k')"
    using assms(5) by simp
  then have "int k * sint pad = int k' * sint pad"
    by (simp only: sint_cell [OF assms(1,3,2)] sint_cell [OF assms(1,4,2)])
  then show ?thesis using assms(1) by simp
qed

lemma cell_Suc: "cell (i + pad) pad k = cell i pad (Suc k)"
  by (simp add: cell_def algebra_simps)

lemma cell_0: "cell i pad 0 = i"
  by (simp add: cell_def)

lemma init_nodes_other:
  "(\<forall>k<n. c \<noteq> cell i pad k) \<Longrightarrow> init_nodes pad i n nd c = nd c"
proof (induction n arbitrary: i nd)
  case 0
  then show ?case by simp
next
  case (Suc n)
  have "\<forall>k<n. c \<noteq> cell (i + pad) pad k"
    using Suc.prems by (auto simp: cell_Suc)
  moreover have "c \<noteq> i"
    using Suc.prems cell_0 [of i pad] by force
  ultimately show ?case
    using Suc.IH [of "i + pad"] by simp
qed

lemma init_nodes_cell:
  assumes "0 < sint pad" and "sint_ok (sint i + int n * sint pad)" and "k < n"
  shows "init_nodes pad i n nd (cell i pad k)
         = (nd (cell i pad k))\<lparr>refcount := 1, next_cell := cell i pad (Suc k)\<rparr>"
  using assms
proof (induction n arbitrary: i nd k)
  case 0
  then show ?case by simp
next
  case (Suc n)
  let ?nd = "nd(i := (nd i)\<lparr>refcount := 1, next_cell := i + pad\<rparr>)"
  have ok1: "sint_ok (sint i + int 1 * sint pad)"
    using sint_ok_between [OF Suc.prems(1) _ Suc.prems(2), of 1] by simp
  have s1: "sint (i + pad) = sint i + sint pad"
    using ok1 by (simp add: sint_offset1)
  have ok': "sint_ok (sint (i + pad) + int n * sint pad)"
    using Suc.prems(2) by (simp add: s1 algebra_simps)
  show ?case
  proof (cases k)
    case 0
    have "\<forall>j<n. i \<noteq> cell (i + pad) pad j"
    proof (intro allI impI)
      fix j assume "j < n"
      then have "cell i pad 0 \<noteq> cell i pad (Suc j)"
        using cell_inj [OF Suc.prems(1,2), of 0 "Suc j"] by auto
      then show "i \<noteq> cell (i + pad) pad j"
        by (simp add: cell_Suc cell_0)
    qed
    then have "init_nodes pad (i + pad) n ?nd i = ?nd i"
      by (rule init_nodes_other)
    then show ?thesis
      using 0 by (simp add: cell_def)
  next
    case (Suc k')
    then have k': "k' < n" using Suc.prems(3) by simp
    have ne: "cell (i + pad) pad k' \<noteq> i"
      using cell_inj [OF Suc.prems(1,2), of "Suc k'" 0] k' by (auto simp: cell_Suc cell_0)
    have "init_nodes pad (i + pad) n ?nd (cell (i + pad) pad k')
          = (?nd (cell (i + pad) pad k'))\<lparr>refcount := 1, next_cell := cell (i + pad) pad (Suc k')\<rparr>"
      using Suc.IH [OF Suc.prems(1) ok' k'] .
    then show ?thesis
      using Suc ne by (simp add: cell_Suc)
  qed
qed

lemma init_lock_queue_closed:
  assumes "dbcheck db" and "arena_ok pad db"
  shows "init_lock_queue pad db = Some (0, init_result pad db)"
proof -
  let ?n = "nat (sint (max_nodes db))"
  have M: "1 \<le> sint (max_nodes db)" and P: "0 < sint pad" and S: "0 < sint (storage db)"
    and ok: "sint_ok (sint (storage db) + sint (max_nodes db) * sint pad)"
    using assms(2) by (simp_all add: arena_ok_def)
  have n: "int ?n = sint (max_nodes db)" "?n \<noteq> 0"
    using M by simp_all
  have mn: "max_nodes db = of_nat ?n"
    using M by simp
  have okn: "sint_ok (sint (storage db) + int ?n * sint pad)"
    using ok n by simp
  have "0 \<le> sint (max_nodes db) * sint pad"
    using M P by simp
  then have okm: "sint_ok (sint (max_nodes db) * sint pad)"
    using ok S unfolding sint_ok_def by linarith
  have wall: "storage db + max_nodes db * pad = cell (storage db) pad ?n"
    unfolding cell_def using mn by simp
  have "sint (storage db) + int ?n * sint pad = sint (cell (storage db) pad ?n)"
    using sint_cell [OF P order_refl okn] by simp
  then have "init_lock_loop pad (cell (storage db) pad ?n) (storage db) None db
      = Some (Some (storage db + of_nat (?n - 1) * pad),
              db\<lparr>nodes := init_nodes pad (storage db) ?n (nodes db)\<rparr>)"
    using init_lock_loop_closed [OF P, of "storage db" ?n "cell (storage db) pad ?n" None db] n(2)
    by simp
  then have loop: "init_lock_loop pad (storage db + max_nodes db * pad) (storage db) None db
      = Some (Some (cell (storage db) pad (?n - 1)),
              db\<lparr>nodes := init_nodes pad (storage db) ?n (nodes db)\<rparr>)"
    by (simp only: wall cell_def)
  show ?thesis
    using assms(1) ok okm
    by (simp add: init_lock_queue_def loop init_result_def set_node_def Let_def)
qed

lemma init_result_cells:
  assumes "arena_ok pad db" and "k < nat (sint (max_nodes db))"
  shows "refcount (nodes (init_result pad db) (cell (storage db) pad k)) = 1
       \<and> next_cell (nodes (init_result pad db) (cell (storage db) pad k))
           = (if Suc k < nat (sint (max_nodes db)) then cell (storage db) pad (Suc k) else 0)"
proof -
  let ?n = "nat (sint (max_nodes db))"
  let ?c = "cell (storage db) pad"
  have P: "0 < sint pad" and M: "1 \<le> sint (max_nodes db)"
    and ok: "sint_ok (sint (storage db) + sint (max_nodes db) * sint pad)"
    using assms(1) by (simp_all add: arena_ok_def)
  have okn: "sint_ok (sint (storage db) + int ?n * sint pad)"
    using ok M by simp
  show ?thesis
  proof (cases "Suc k < ?n")
    case True
    then have "?c k \<noteq> ?c (?n - 1)"
      using cell_inj [OF P okn, of k "?n - 1"] by auto
    then show ?thesis
      using True init_nodes_cell [OF P okn assms(2), of "nodes db"]
      by (simp add: init_result_def Let_def)
  next
    case False
    then have "k = ?n - 1" using assms(2) by simp
    then show ?thesis
      using False init_nodes_cell [OF P okn assms(2), of "nodes db"]
      by (simp add: init_result_def Let_def)
  qed
qed

text \<open>
  C2, as the code has it. On a valid handle with an arena of \<open>max_nodes \<ge> 1\<close> cells
  whose offsets fit the signed word, \<open>init_lock_queue\<close> returns 0, leaves \<open>tail\<close>,
  \<open>next_writer\<close> and \<open>reader_count\<close> as they were (it does not write them), sets
  \<open>freelist\<close> to the first cell, and gives every cell the reference count 1 and, as
  \<open>next_cell\<close>, the offset of the cell that follows; the last cell gets \<open>next_cell = 0\<close>.
\<close>

theorem init_lock_queue_links_cells:
  assumes "dbcheck db" and "arena_ok pad db"
  shows "\<exists>db'. init_lock_queue pad db = Some (0, db')
           \<and> tail db' = tail db \<and> next_writer db' = next_writer db
           \<and> reader_count db' = reader_count db
           \<and> freelist db' = cell (storage db) pad 0
           \<and> (\<forall>k < nat (sint (max_nodes db)).
                 refcount (nodes db' (cell (storage db) pad k)) = 1
                 \<and> next_cell (nodes db' (cell (storage db) pad k))
                     = (if Suc k < nat (sint (max_nodes db))
                        then cell (storage db) pad (Suc k) else 0))"
  using init_lock_queue_closed [OF assms] init_result_cells [OF assms(2)]
  by (simp add: init_result_def Let_def cell_0)

theorem init_lock_queue_links_cells_witness:
  "dbcheck (segment 2) \<and> arena_ok 128 (segment 2)
   \<and> map_option
        (\<lambda>r. (fst r, freelist (snd r),
              refcount (nodes (snd r) 1024), next_cell (nodes (snd r) 1024),
              refcount (nodes (snd r) 1152), next_cell (nodes (snd r) 1152)))
        (init_lock_queue 128 (segment 2))
      = Some (0, 1024, 1, 1152, 1, 0)"
proof -
  have v: "dbcheck (segment 2)"
    by (simp add: segment_def)
  have a: "arena_ok 128 (segment 2)"
    by (simp add: arena_ok_def segment_def sint_ok_def)
  have n: "nat (sint (max_nodes (segment 2))) = Suc (Suc 0)" and s: "storage (segment 2) = 1024"
    by (simp_all add: segment_def)
  show ?thesis
    using init_lock_queue_links_cells [OF v a] v a
    by (auto simp: n s cell_def All_less_Suc)
qed

text \<open>
  The claim C2 as stated fails for the three header words: \<open>init_lock_queue\<close> does not
  write 0 into them. With \<open>tail = 7\<close>, \<open>next_writer = 8\<close> and \<open>reader_count = 9\<close>
  before the call, they are 7, 8 and 9 after it.
\<close>

theorem init_lock_queue_header_counterexample:
  "dbcheck ((segment 1)\<lparr>tail := 7, next_writer := 8, reader_count := 9\<rparr>)
   \<and> 1 \<le> sint (max_nodes ((segment 1)\<lparr>tail := 7, next_writer := 8, reader_count := 9\<rparr>))
   \<and> map_option (\<lambda>r. (fst r, tail (snd r), next_writer (snd r), reader_count (snd r)))
        (init_lock_queue 128 ((segment 1)\<lparr>tail := 7, next_writer := 8, reader_count := 9\<rparr>))
      = Some (0, 7, 8, 9)"
proof -
  let ?db = "(segment 1)\<lparr>tail := 7, next_writer := 8, reader_count := 9\<rparr>"
  have v: "dbcheck ?db"
    by (simp add: segment_def)
  have a: "arena_ok 128 ?db"
    by (simp add: arena_ok_def segment_def sint_ok_def)
  show ?thesis
    using init_lock_queue_closed [OF v a]
    by (simp add: init_result_def Let_def segment_def)
qed

section \<open>The pool of queue nodes\<close>

lemma free_lock_push_closed:
  "free_lock_push db node
   = db\<lparr>nodes := (nodes db)(node := (nodes db node)\<lparr>next_cell := freelist db\<rparr>),
        freelist := node\<rparr>"
  by (subst free_lock_push.simps, cases db) (simp add: compare_and_swap_def set_node_def Let_def)

lemma free_lock_closed:
  "free_lock db node
   = (if refcount (nodes db node) = 2
      then db\<lparr>nodes := (nodes db)(node := (nodes db node)\<lparr>refcount := 1, next_cell := freelist db\<rparr>),
              freelist := node\<rparr>
      else db\<lparr>nodes := (nodes db)(node := (nodes db node)\<lparr>refcount := refcount (nodes db node) - 2\<rparr>)\<rparr>)"
  by (cases db)
     (simp add: free_lock_def free_lock_push_closed compare_and_swap_def fetch_and_add_def
        set_node_def Let_def)

lemma alloc_lock_closed:
  "alloc_lock db
   = (if freelist db = 0 then (0, db)
      else (freelist db,
            db\<lparr>nodes := (nodes db)(freelist db :=
                   (nodes db (freelist db))\<lparr>refcount := refcount (nodes db (freelist db)) + 1\<rparr>),
               freelist := next_cell (nodes db (freelist db))\<rparr>))"
  by (subst alloc_lock.simps, cases db)
     (simp add: compare_and_swap_def fetch_and_add_def set_node_def Let_def add.commute)

lemma chain_cong_nodes:
  "(\<And>c. c \<in> set cs \<Longrightarrow> next_cell (nd' c) = next_cell (nd c)) \<Longrightarrow> chain nd' p cs = chain nd p cs"
  by (induction cs arbitrary: p) auto

lemma alloc_lock_inv:
  assumes "pool_inv C db cs held"
  shows "(cs = [] \<and> alloc_lock db = (0, db))
       \<or> (\<exists>t cs'. cs = t # cs' \<and> t \<noteq> 0 \<and> fst (alloc_lock db) = t
                    \<and> pool_inv C (snd (alloc_lock db)) cs' (t # held))"
proof (cases cs)
  case Nil
  then show ?thesis
    using assms by (simp add: pool_inv_def alloc_lock_closed)
next
  case (Cons t cs')
  let ?nd' = "(nodes db)(t := (nodes db t)\<lparr>refcount := refcount (nodes db t) + 1\<rparr>)"
  have fl: "freelist db = t" and t0: "t \<noteq> 0"
    and ch: "chain (nodes db) (next_cell (nodes db t)) cs'"
    and d: "t \<notin> set cs'" "t \<notin> set held" "distinct (cs' @ held)"
    and rc: "refcount (nodes db t) = 1"
    using assms Cons by (auto simp: pool_inv_def)
  have a: "alloc_lock db = (t, db\<lparr>nodes := ?nd', freelist := next_cell (nodes db t)\<rparr>)"
    using fl t0 by (simp add: alloc_lock_closed)
  have "chain ?nd' (next_cell (nodes db t)) cs' = chain (nodes db) (next_cell (nodes db t)) cs'"
    using d(1) by (intro chain_cong_nodes) auto
  then have ch': "chain ?nd' (next_cell (nodes db t)) cs'"
    using ch by simp
  have "pool_inv C (db\<lparr>nodes := ?nd', freelist := next_cell (nodes db t)\<rparr>) cs' (t # held)"
    using assms Cons ch' d rc
    by (auto simp: pool_inv_def list_all_iff)
  then show ?thesis
    using Cons t0 a by simp
qed

lemma free_lock_inv:
  assumes "pool_inv C db cs held" and "node \<in> set held"
  shows "pool_inv C (free_lock db node) (node # cs) (remove1 node held)"
proof -
  let ?nd' = "(nodes db)(node := (nodes db node)\<lparr>refcount := 1, next_cell := freelist db\<rparr>)"
  have rc: "refcount (nodes db node) = 2" and n0: "node \<noteq> 0" and d: "node \<notin> set cs"
    and dh: "distinct held" and dc: "distinct cs" and dj: "set cs \<inter> set held = {}"
    using assms by (auto simp: pool_inv_def list_all_iff)
  have f: "free_lock db node = db\<lparr>nodes := ?nd', freelist := node\<rparr>"
    using rc by (simp add: free_lock_closed)
  have "chain ?nd' (freelist db) cs = chain (nodes db) (freelist db) cs"
    using d by (intro chain_cong_nodes) auto
  then have ch: "chain ?nd' (freelist db) cs"
    using assms(1) by (simp add: pool_inv_def)
  have s: "set (remove1 node held) = set held - {node}"
    using dh by simp
  show ?thesis
    unfolding f using assms ch n0 d dh dc dj s
    by (auto simp: pool_inv_def list_all_iff)
qed

lemma run_pool_inv:
  assumes "pool_inv C db cs held" and "run_pool ops (db, held) = Some (db', held')"
  shows "\<exists>cs'. pool_inv C db' cs' held'"
  using assms
proof (induction ops arbitrary: db cs held)
  case Nil
  then show ?case by auto
next
  case (Cons op ops)
  show ?case
  proof (cases op)
    case Alloc
    from alloc_lock_inv [OF Cons.prems(1)] show ?thesis
    proof (elim disjE exE conjE)
      assume "cs = []" and a: "alloc_lock db = (0, db)"
      then have "run_pool ops (db, held) = Some (db', held')"
        using Cons.prems(2) Alloc by simp
      then show ?thesis
        using Cons.IH [OF Cons.prems(1)] by simp
    next
      fix t cs'
      assume t: "t \<noteq> 0" "fst (alloc_lock db) = t"
        and inv: "pool_inv C (snd (alloc_lock db)) cs' (t # held)"
      have "run_pool ops (snd (alloc_lock db), t # held) = Some (db', held')"
        using Cons.prems(2) Alloc t by (simp add: Let_def)
      then show ?thesis
        using Cons.IH [OF inv] by simp
    qed
  next
    case (Free node)
    then have h: "node \<in> set held"
      and r: "run_pool ops (free_lock db node, remove1 node held) = Some (db', held')"
      using Cons.prems(2) by (auto split: if_splits)
    show ?thesis
      using Cons.IH [OF free_lock_inv [OF Cons.prems(1) h] r] .
  qed
qed


lemma cell_nonzero:
  assumes "arena_ok pad db" and "k \<le> nat (sint (max_nodes db))"
  shows "cell (storage db) pad k \<noteq> 0"
proof -
  have P: "0 < sint pad" and M: "1 \<le> sint (max_nodes db)" and S: "0 < sint (storage db)"
    and ok: "sint_ok (sint (storage db) + sint (max_nodes db) * sint pad)"
    using assms(1) by (simp_all add: arena_ok_def)
  have okn: "sint_ok (sint (storage db) + int (nat (sint (max_nodes db))) * sint pad)"
    using ok M by simp
  have "sint (cell (storage db) pad k) = sint (storage db) + int k * sint pad"
    using sint_cell [OF P assms(2) okn] .
  moreover have "0 \<le> int k * sint pad"
    using P by simp
  ultimately have "0 < sint (cell (storage db) pad k)"
    using S by linarith
  then show ?thesis by auto
qed

lemma init_chain:
  assumes "arena_ok pad db" and "k < nat (sint (max_nodes db))"
  shows "chain (nodes (init_result pad db)) (cell (storage db) pad k)
           (map (cell (storage db) pad) [k..<nat (sint (max_nodes db))])"
  using assms(2)
proof (induction "nat (sint (max_nodes db)) - k" arbitrary: k)
  case 0
  then show ?case by simp
next
  case (Suc m)
  let ?n = "nat (sint (max_nodes db))"
  have k: "k < ?n" using Suc.prems .
  have nz: "cell (storage db) pad k \<noteq> 0"
    using cell_nonzero [OF assms(1), of k] k by simp
  have up: "[k..<?n] = k # [Suc k..<?n]"
    using k by (simp add: upt_conv_Cons)
  show ?case
  proof (cases "Suc k < ?n")
    case True
    have "m = ?n - Suc k" using Suc.hyps(2) by simp
    from Suc.hyps(1) [OF this True] show ?thesis
      using init_result_cells [OF assms(1) k] True nz by (simp add: up)
  next
    case False
    then have "[Suc k..<?n] = []" by simp
    then show ?thesis
      using init_result_cells [OF assms(1) k] False nz by (simp add: up)
  qed
qed

lemma init_pool_inv:
  assumes "arena_ok pad db"
  shows "pool_inv (cell (storage db) pad ` {..<nat (sint (max_nodes db))}) (init_result pad db)
           (map (cell (storage db) pad) [0..<nat (sint (max_nodes db))]) []"
proof -
  let ?n = "nat (sint (max_nodes db))"
  let ?c = "cell (storage db) pad"
  have P: "0 < sint pad" and M: "1 \<le> sint (max_nodes db)"
    and ok: "sint_ok (sint (storage db) + sint (max_nodes db) * sint pad)"
    using assms(1) by (simp_all add: arena_ok_def)
  have okn: "sint_ok (sint (storage db) + int ?n * sint pad)"
    using ok M by simp
  have n: "0 < ?n" using M by simp
  have "chain (nodes (init_result pad db)) (?c 0) (map ?c [0..<?n])"
    using init_chain [OF assms n] .
  then have ch: "chain (nodes (init_result pad db)) (freelist (init_result pad db)) (map ?c [0..<?n])"
    by (simp add: init_result_def Let_def cell_0)
  have "inj_on ?c {0..<?n}"
    by (rule inj_onI) (use cell_inj [OF P okn] in auto)
  then have d: "distinct (map ?c [0..<?n])"
    by (simp add: distinct_map)
  have z: "0 \<notin> ?c ` {..<?n}"
    using cell_nonzero [OF assms] by force
  have r: "list_all (\<lambda>c. refcount (nodes (init_result pad db) c) = 1) (map ?c [0..<?n])"
    using init_result_cells [OF assms] by (simp add: list_all_iff)
  have st: "set (map ?c [0..<?n]) = ?c ` {..<?n}"
    by (simp add: atLeast0LessThan)
  show ?thesis
    unfolding pool_inv_def using ch d z r st by simp
qed

text \<open>
  C8. Pool conservation: start from the pool that \<open>init_lock_queue\<close> set up and run
  any sequence of \<open>alloc_lock\<close> and \<open>free_lock\<close> calls, one after the other, in
  which only held nodes are freed and at the end no node is held (every allocated node
  was freed exactly once). Then the cells reached from \<open>freelist\<close> along \<open>next_cell\<close>
  are distinct, they are exactly the \<open>max_nodes\<close> cells of the arena, and each has the
  reference count 1.
\<close>

theorem pool_conservation:
  assumes "dbcheck db0" and "arena_ok pad db0"
    and "init_lock_queue pad db0 = Some (r, db)"
    and "run_pool ops (db, []) = Some (db', [])"
  shows "\<exists>cs. chain (nodes db') (freelist db') cs \<and> distinct cs
           \<and> set cs = cell (storage db0) pad ` {..<nat (sint (max_nodes db0))}
           \<and> list_all (\<lambda>c. refcount (nodes db' c) = 1) cs"
proof -
  have "db = init_result pad db0"
    using init_lock_queue_closed [OF assms(1,2)] assms(3) by simp
  then obtain cs where "pool_inv (cell (storage db0) pad ` {..<nat (sint (max_nodes db0))}) db' cs []"
    using run_pool_inv [OF init_pool_inv [OF assms(2)]] assms(4) by blast
  then show ?thesis
    by (auto simp: pool_inv_def)
qed

theorem pool_conservation_witness:
  "dbcheck (segment 2) \<and> arena_ok 128 (segment 2)
   \<and> init_lock_queue 128 (segment 2) = Some (0, initialised 2)
   \<and> (\<exists>db'. run_pool pool_ops (initialised 2, []) = Some (db', [])
          \<and> (\<exists>cs. chain (nodes db') (freelist db') cs \<and> distinct cs
                 \<and> set cs = cell 1024 128 ` {..<2}
                 \<and> list_all (\<lambda>c. refcount (nodes db' c) = 1) cs))"
proof -
  have v: "dbcheck (segment 2)"
    by (simp add: segment_def)
  have a: "arena_ok 128 (segment 2)"
    by (simp add: arena_ok_def segment_def sint_ok_def)
  have i: "init_lock_queue 128 (segment 2) = Some (0, initialised 2)"
    using init_lock_queue_closed [OF v a] by (simp add: initialised_def)
  have "map_option snd (run_pool pool_ops (initialised 2, [])) = Some []"
    by code_simp
  then obtain db' where r: "run_pool pool_ops (initialised 2, []) = Some (db', [])"
    by (cases "run_pool pool_ops (initialised 2, [])") auto
  from pool_conservation [OF v a i r] show ?thesis
    using v a i r by (simp add: segment_def)
qed

lemma alloc_lock_zero_iff: "fst (alloc_lock db) = 0 \<longleftrightarrow> freelist db = 0"
  by (simp add: alloc_lock_closed)

lemma outcome_eq: "returned out = Some r \<Longrightarrow> out = Returns r (state_after out)"
  by (cases out) simp_all

lemma two_cells:
  assumes "arena_ok pad db" and "max_nodes db = 2"
  shows "storage db \<noteq> 0" and "storage db + pad \<noteq> 0" and "storage db + pad \<noteq> storage db"
    and "freelist (init_result pad db) = storage db"
    and "refcount (nodes (init_result pad db) (storage db)) = 1"
    and "next_cell (nodes (init_result pad db) (storage db)) = storage db + pad"
    and "refcount (nodes (init_result pad db) (storage db + pad)) = 1"
    and "next_cell (nodes (init_result pad db) (storage db + pad)) = 0"
proof -
  have n: "nat (sint (max_nodes db)) = 2"
    using assms(2) by simp
  have P: "0 < sint pad" and M: "1 \<le> sint (max_nodes db)"
    and ok: "sint_ok (sint (storage db) + sint (max_nodes db) * sint pad)"
    using assms(1) by (simp_all add: arena_ok_def)
  have okn: "sint_ok (sint (storage db) + int 2 * sint pad)"
    using ok assms(2) by simp
  show "storage db \<noteq> 0"
    using cell_nonzero [OF assms(1), of 0] by (simp add: cell_def)
  show "storage db + pad \<noteq> 0"
    using cell_nonzero [OF assms(1), of 1] n by (simp add: cell_def)
  show "storage db + pad \<noteq> storage db"
    using cell_inj [OF P okn, of 1 0] by (auto simp: cell_def)
  show "freelist (init_result pad db) = storage db"
    by (simp add: init_result_def Let_def)
  show "refcount (nodes (init_result pad db) (storage db)) = 1"
    and "next_cell (nodes (init_result pad db) (storage db)) = storage db + pad"
    using init_result_cells [OF assms(1), of 0] n by (simp_all add: cell_def)
  show "refcount (nodes (init_result pad db) (storage db + pad)) = 1"
    and "next_cell (nodes (init_result pad db) (storage db + pad)) = 0"
    using init_result_cells [OF assms(1), of 1] n by (simp_all add: cell_def)
qed

lemma init_result_header:
  "dbcheck (init_result pad db) = dbcheck db" "tail (init_result pad db) = tail db"
  "next_writer (init_result pad db) = next_writer db"
  "reader_count (init_result pad db) = reader_count db"
  by (simp_all add: init_result_def Let_def)

lemmas queued_defs =
  wg_start_read_def wg_end_read_def alloc_lock_closed free_lock_closed read_enqueue_def
  rd_lock_cont_def read_unblock_succ_def end_succ_test_def end_read_set_writer_def
  end_read_handoff_def end_read_decr_def end_read_unblock_writer_def
  fetch_and_store_def fetch_and_add_def compare_and_swap_def atomic_and_def atomic_or_def
  atomic_increment_def set_node_def LOCKQ_READ_def LOCKQ_WRITE_def Let_def

lemma scenario:
  assumes "dbcheck s" and "arena_ok pad s" and "max_nodes s = 2"
    and "tail s = 0" and "next_writer s = 0" and "reader_count s = 0"
  defines "o1 \<equiv> wg_start_read True (init_result pad s)"
  defines "o2 \<equiv> wg_start_read True (state_after o1)"
  defines "o3 \<equiv> wg_start_read True (state_after o2)"
  shows "returned o1 = Some (storage s)"
    and "returned o2 = Some (storage s + pad)"
    and "o3 = Returns 0 (state_after o2)"
    and "returned (wg_end_read True (state_after o3) (storage s)) = Some 1"
    and "returned (wg_start_read True (state_after (wg_end_read True (state_after o3) (storage s)))) = Some (storage s)"
    and "returned (wg_end_read True (state_after o3) (storage s + pad)) = Some 1"
    and "returned (wg_start_read True (state_after (wg_end_read True (state_after o3) (storage s + pad)))) = Some (storage s + pad)"
  unfolding o1_def o2_def o3_def
  using assms(1,4,5,6) two_cells [OF assms(2,3)]
  by (simp_all add: queued_defs init_result_header)

text \<open>
  C7. Pool exhaustion: \<open>alloc_lock\<close> returns 0 exactly when \<open>freelist\<close> is 0. On a
  valid segment with two cells, initialised with the header words at 0, calls run one
  after the other: two \<open>wg_start_read\<close> return the two nonzero tokens, a third returns
  0 and changes nothing, and after \<open>wg_end_read\<close> of either token the next
  \<open>wg_start_read\<close> returns a nonzero token again. (Two acquisitions that both return
  in such a run are two reads: behind a writer that holds the lock the next call waits.)
\<close>

theorem pool_exhaustion:
  assumes "dbcheck s" and "arena_ok pad s" and "max_nodes s = 2"
    and "tail s = 0" and "next_writer s = 0" and "reader_count s = 0"
  shows "(fst (alloc_lock db) = 0 \<longleftrightarrow> freelist db = 0)
       \<and> (\<exists>d0 d1 d2 t1 t2.
             init_lock_queue pad s = Some (0, d0)
             \<and> wg_start_read True d0 = Returns t1 d1 \<and> t1 \<noteq> 0
             \<and> wg_start_read True d1 = Returns t2 d2 \<and> t2 \<noteq> 0
             \<and> wg_start_read True d2 = Returns 0 d2
             \<and> (\<exists>d3 d4 t. wg_end_read True d2 t1 = Returns 1 d3
                    \<and> wg_start_read True d3 = Returns t d4 \<and> t \<noteq> 0)
             \<and> (\<exists>d3 d4 t. wg_end_read True d2 t2 = Returns 1 d3
                    \<and> wg_start_read True d3 = Returns t d4 \<and> t \<noteq> 0))"
proof -
  let ?o1 = "wg_start_read True (init_result pad s)"
  let ?o2 = "wg_start_read True (state_after ?o1)"
  let ?d2 = "state_after ?o2"
  let ?t1 = "storage s" and ?t2 = "storage s + pad"
  note sc = scenario [OF assms]
  note nz = two_cells(1,2) [OF assms(2,3)]
  have i: "init_lock_queue pad s = Some (0, init_result pad s)"
    using init_lock_queue_closed [OF assms(1,2)] .
  have r1: "?o1 = Returns ?t1 (state_after ?o1)"
    using sc(1) by (rule outcome_eq)
  have r2: "?o2 = Returns ?t2 ?d2"
    using sc(2) by (rule outcome_eq)
  have r3: "wg_start_read True ?d2 = Returns 0 ?d2"
    using sc(3) .
  have d3: "state_after (wg_start_read True ?d2) = ?d2"
    using r3 by simp
  have e1: "wg_end_read True ?d2 ?t1 = Returns 1 (state_after (wg_end_read True ?d2 ?t1))"
    using sc(4) unfolding d3 by (rule outcome_eq)
  have a1: "wg_start_read True (state_after (wg_end_read True ?d2 ?t1))
            = Returns ?t1 (state_after (wg_start_read True (state_after (wg_end_read True ?d2 ?t1))))"
    using sc(5) unfolding d3 by (rule outcome_eq)
  have e2: "wg_end_read True ?d2 ?t2 = Returns 1 (state_after (wg_end_read True ?d2 ?t2))"
    using sc(6) unfolding d3 by (rule outcome_eq)
  have a2: "wg_start_read True (state_after (wg_end_read True ?d2 ?t2))
            = Returns ?t2 (state_after (wg_start_read True (state_after (wg_end_read True ?d2 ?t2))))"
    using sc(7) unfolding d3 by (rule outcome_eq)
  have "\<exists>d3 d4 t. wg_end_read True ?d2 ?t1 = Returns 1 d3
          \<and> wg_start_read True d3 = Returns t d4 \<and> t \<noteq> 0"
    using e1 a1 nz(1) by blast
  moreover have "\<exists>d3 d4 t. wg_end_read True ?d2 ?t2 = Returns 1 d3
          \<and> wg_start_read True d3 = Returns t d4 \<and> t \<noteq> 0"
    using e2 a2 nz(2) by blast
  ultimately have "\<exists>d0 d1 d2 t1 t2.
             init_lock_queue pad s = Some (0, d0)
             \<and> wg_start_read True d0 = Returns t1 d1 \<and> t1 \<noteq> 0
             \<and> wg_start_read True d1 = Returns t2 d2 \<and> t2 \<noteq> 0
             \<and> wg_start_read True d2 = Returns 0 d2
             \<and> (\<exists>d3 d4 t. wg_end_read True d2 t1 = Returns 1 d3
                    \<and> wg_start_read True d3 = Returns t d4 \<and> t \<noteq> 0)
             \<and> (\<exists>d3 d4 t. wg_end_read True d2 t2 = Returns 1 d3
                    \<and> wg_start_read True d3 = Returns t d4 \<and> t \<noteq> 0)"
    using i r1 r2 r3 nz by blast
  then show ?thesis
    by (simp add: alloc_lock_zero_iff)
qed

theorem pool_exhaustion_witness:
  "dbcheck (segment 2) \<and> arena_ok 128 (segment 2) \<and> max_nodes (segment 2) = 2
   \<and> tail (segment 2) = 0 \<and> next_writer (segment 2) = 0 \<and> reader_count (segment 2) = 0
   \<and> (fst (alloc_lock (segment 2)) = 0 \<longleftrightarrow> freelist (segment 2) = 0)
   \<and> (\<exists>d0 d1 d2 t1 t2.
         init_lock_queue 128 (segment 2) = Some (0, d0)
         \<and> wg_start_read True d0 = Returns t1 d1 \<and> t1 \<noteq> 0
         \<and> wg_start_read True d1 = Returns t2 d2 \<and> t2 \<noteq> 0
         \<and> wg_start_read True d2 = Returns 0 d2
         \<and> (\<exists>d3 d4 t. wg_end_read True d2 t1 = Returns 1 d3
                \<and> wg_start_read True d3 = Returns t d4 \<and> t \<noteq> 0)
         \<and> (\<exists>d3 d4 t. wg_end_read True d2 t2 = Returns 1 d3
                \<and> wg_start_read True d3 = Returns t d4 \<and> t \<noteq> 0))"
proof -
  have h: "dbcheck (segment 2)" "arena_ok 128 (segment 2)" "max_nodes (segment 2) = 2"
    "tail (segment 2) = 0" "next_writer (segment 2) = 0" "reader_count (segment 2) = 0"
    by (simp_all add: segment_def arena_ok_def sint_ok_def)
  from pool_exhaustion [OF h, of "segment 2"] h show ?thesis
    by blast
qed

section \<open>Queued locks: a reader and a writer inside together\<close>

text \<open>
  The execution of \<open>race_schedule\<close>, observed after 4, 6, 8, 9, 12, 13 and 14 events:
  the program counters of threads 0 to 3, \<open>reader_count\<close> and \<open>next_writer\<close>. After 12
  events thread 2 has registered the writer's node 1408 as next writer and one reader
  (thread 1) is left; the next event is the swap of line 724 by thread 0, which had seen
  \<open>reader_count = 1\<close> eight events earlier.
\<close>

lemma race_schedule_trace:
  "map (\<lambda>n. (map (pcs (run thr_step (take n race_schedule) (idle_system (initialised 4)))) [0, 1, 2, 3],
             reader_count (shared (run thr_step (take n race_schedule) (idle_system (initialised 4)))),
             next_writer (shared (run thr_step (take n race_schedule) (idle_system (initialised 4))))))
     [4, 6, 8, 9, 12, 13, 14]
   = [([ER_xchg 1024, Idle, Idle, Idle], 0, 0),
      ([ER_xchg 1024, Reading 1152, Idle, Idle], 1, 0),
      ([ER_xchg 1024, Reading 1152, Reading 1280, Idle], 2, 0),
      ([ER_xchg 1024, Reading 1152, Reading 1280, SW_spin 1408], 2, 0),
      ([ER_xchg 1024, Reading 1152, ER_free 1280, SW_spin 1408], 1, 1408),
      ([ER_free 1024, Reading 1152, ER_free 1280, SW_spin 1408], 1, 0),
      ([ER_free 1024, Reading 1152, ER_free 1280, Writing 1408], 1, 0)]"
  by code_simp

text \<open>
  C1, mutual exclusion (at most one thread between the return of \<open>wg_start_write\<close> and
  its \<open>wg_end_write\<close>, and none while a thread is between the return of
  \<open>wg_start_read\<close> and its \<open>wg_end_read\<close>), fails for the queued locks. From an
  initialised pool of four cells with all threads idle, \<open>race_schedule\<close> leads to a
  state in which thread 1 is between the return of
  \<open>wg_start_read\<close> and its call of \<open>wg_end_read\<close> (token 1152), and thread 3 is
  between the return of \<open>wg_start_write\<close> and its call of \<open>wg_end_write\<close> (token
  1408): a reader and a writer hold the lock at the same time. Thread 0 saw
  \<open>reader_count\<close> go from 1 to 0, but when it swaps \<open>next_writer\<close> later, the writer
  it finds there was registered by another reader while thread 1 is still reading.
\<close>

theorem queued_reader_writer_race:
  "map_option fst (init_lock_queue 128 (segment 4)) = Some 0
   \<and> pcs (run thr_step race_schedule (idle_system (initialised 4))) 1 = Reading 1152
   \<and> pcs (run thr_step race_schedule (idle_system (initialised 4))) 3 = Writing 1408
   \<and> in_read (pcs (run thr_step race_schedule (idle_system (initialised 4))) 1)
   \<and> in_write (pcs (run thr_step race_schedule (idle_system (initialised 4))) 3)"
  by code_simp

section \<open>Simple locks\<close>

lemma and_1_add_2: "(x + 2) AND 1 = x AND (1 :: gint)"
  by (rule bit_eqI) (auto simp: bit_and_iff bit_1_iff bit_0)

text \<open>
  C3. Simple locks, one reader: on a valid handle whose sync word is 0,
  \<open>wg_start_read\<close> returns the nonzero token 1 and leaves the sync word at 2 (nothing
  else changes), and the \<open>wg_end_read\<close> that follows returns 1 and leaves it at 0.
\<close>

theorem simple_single_reader_round_trip:
  assumes "dbcheck db" and "global_lock db = 0"
  shows "wg_start_read False db = Returns 1 (db\<lparr>global_lock := 2\<rparr>)
       \<and> wg_end_read False (db\<lparr>global_lock := 2\<rparr>) 1 = Returns 1 (db\<lparr>global_lock := 0\<rparr>)"
  using assms
  by (simp add: wg_start_read_def wg_end_read_def fetch_and_add_def RC_INCR_def WAFLAG_def)

theorem simple_single_reader_round_trip_witness:
  "dbcheck (segment 1) \<and> global_lock (segment 1) = 0
   \<and> wg_start_read False (segment 1) = Returns 1 ((segment 1)\<lparr>global_lock := 2\<rparr>)
   \<and> wg_end_read False ((segment 1)\<lparr>global_lock := 2\<rparr>) 1
       = Returns 1 ((segment 1)\<lparr>global_lock := 0\<rparr>)"
  using simple_single_reader_round_trip [of "segment 1"]
  by (simp add: segment_def)

text \<open>
  C4. Simple locks, one writer: on a valid handle whose sync word is 0,
  \<open>wg_start_write\<close> returns the nonzero token 1 and leaves the sync word at 1, and the
  \<open>wg_end_write\<close> that follows leaves it at 0. On any valid handle \<open>db'\<close>, whatever
  its sync word and whatever the token, \<open>wg_end_write\<close> clears the \<open>WAFLAG\<close> bit and
  returns 1: it validates nothing.
\<close>

theorem simple_single_writer_round_trip:
  assumes "dbcheck db" and "global_lock db = 0" and "dbcheck db'"
  shows "wg_start_write False db = Returns 1 (db\<lparr>global_lock := 1\<rparr>)
       \<and> wg_end_write False (db\<lparr>global_lock := 1\<rparr>) 1 = Returns 1 (db\<lparr>global_lock := 0\<rparr>)
       \<and> wg_end_write False db' lock
           = Returns 1 (db'\<lparr>global_lock := global_lock db' AND NOT WAFLAG\<rparr>)"
  using assms
  by (simp add: wg_start_write_def wg_end_write_def compare_and_swap_def atomic_and_def WAFLAG_def)

theorem simple_single_writer_round_trip_witness:
  "dbcheck (segment 1) \<and> global_lock (segment 1) = 0
   \<and> dbcheck ((segment 1)\<lparr>global_lock := 7\<rparr>)
   \<and> wg_start_write False (segment 1) = Returns 1 ((segment 1)\<lparr>global_lock := 1\<rparr>)
   \<and> wg_end_write False ((segment 1)\<lparr>global_lock := 1\<rparr>) 1
       = Returns 1 ((segment 1)\<lparr>global_lock := 0\<rparr>)
   \<and> wg_end_write False ((segment 1)\<lparr>global_lock := 7\<rparr>) 99
       = Returns 1 ((segment 1)\<lparr>global_lock := 6\<rparr>)"
  using simple_single_writer_round_trip
          [of "segment 1" "(segment 1)\<lparr>global_lock := 7\<rparr>" 99]
  by (simp add: segment_def WAFLAG_def)

text \<open>
  C5. Simple locks, reader preference: on a valid handle with any sync word,
  \<open>wg_start_read\<close> changes the shared state by one addition of \<open>RC_INCR\<close> to the sync
  word and by nothing else. When the value that the fetch-and-add fetched has \<open>WAFLAG\<close>
  clear the call returns 1 at once; otherwise it waits, and the state in which it waits
  still holds the added \<open>RC_INCR\<close>: the reader count is not taken back. Step by step,
  among other threads: the first step of the call is the addition, and every later
  step, in whatever shared state \<open>db'\<close> the other threads have made, leaves the shared
  state as it is and ends the wait exactly when \<open>WAFLAG\<close> is clear.
\<close>

theorem simple_start_read_frame:
  assumes "dbcheck db"
  shows "(fst (fetch_and_add (global_lock db) RC_INCR) AND WAFLAG = 0 \<longrightarrow>
            wg_start_read False db = Returns 1 (db\<lparr>global_lock := global_lock db + RC_INCR\<rparr>))
       \<and> (fst (fetch_and_add (global_lock db) RC_INCR) AND WAFLAG \<noteq> 0 \<longrightarrow>
            wg_start_read False db = Spins (db\<lparr>global_lock := global_lock db + RC_INCR\<rparr>))
       \<and> simple_step Call_read S_idle db
           = (S_rwait, db\<lparr>global_lock := global_lock db + RC_INCR\<rparr>)
       \<and> snd (simple_step Step S_rwait db') = db'
       \<and> (fst (simple_step Step S_rwait db') = S_reading \<longleftrightarrow> global_lock db' AND WAFLAG = 0)"
  using assms
  by (simp add: wg_start_read_def spin_read_def fetch_and_add_def RC_INCR_def WAFLAG_def
      and_1_add_2)

theorem simple_start_read_frame_witness:
  "dbcheck ((segment 1)\<lparr>global_lock := 4\<rparr>)
   \<and> fst (fetch_and_add 4 RC_INCR) AND WAFLAG = 0
   \<and> wg_start_read False ((segment 1)\<lparr>global_lock := 4\<rparr>)
       = Returns 1 ((segment 1)\<lparr>global_lock := 6\<rparr>)
   \<and> dbcheck ((segment 1)\<lparr>global_lock := 1\<rparr>)
   \<and> fst (fetch_and_add 1 RC_INCR) AND WAFLAG \<noteq> 0
   \<and> wg_start_read False ((segment 1)\<lparr>global_lock := 1\<rparr>)
       = Spins ((segment 1)\<lparr>global_lock := 3\<rparr>)
   \<and> simple_step Call_read S_idle ((segment 1)\<lparr>global_lock := 1\<rparr>)
       = (S_rwait, (segment 1)\<lparr>global_lock := 3\<rparr>)
   \<and> simple_step Step S_rwait ((segment 1)\<lparr>global_lock := 3\<rparr>)
       = (S_rwait, (segment 1)\<lparr>global_lock := 3\<rparr>)
   \<and> simple_step Step S_rwait ((segment 1)\<lparr>global_lock := 2\<rparr>)
       = (S_reading, (segment 1)\<lparr>global_lock := 2\<rparr>)"
  using simple_start_read_frame
          [of "(segment 1)\<lparr>global_lock := 4\<rparr>" "(segment 1)\<lparr>global_lock := 3\<rparr>"]
        simple_start_read_frame
          [of "(segment 1)\<lparr>global_lock := 1\<rparr>" "(segment 1)\<lparr>global_lock := 2\<rparr>"]
  by (simp add: segment_def fetch_and_add_def RC_INCR_def WAFLAG_def spin_read_def)

text \<open>
  C10. Simple locks, the releases ignore the token: on a valid handle, for any two
  tokens \<open>t1\<close> and \<open>t2\<close>, \<open>wg_end_write\<close> makes the same update of the sync word (it
  clears \<open>WAFLAG\<close>) and returns 1, and \<open>wg_end_read\<close> makes the same update (it
  subtracts \<open>RC_INCR\<close>) and returns 1. The result does not depend on the token.
\<close>

theorem simple_end_ignores_token:
  assumes "dbcheck db"
  shows "wg_end_write False db t1 = Returns 1 (db\<lparr>global_lock := global_lock db AND NOT WAFLAG\<rparr>)
       \<and> wg_end_write False db t2 = Returns 1 (db\<lparr>global_lock := global_lock db AND NOT WAFLAG\<rparr>)
       \<and> wg_end_read False db t1 = Returns 1 (db\<lparr>global_lock := global_lock db - RC_INCR\<rparr>)
       \<and> wg_end_read False db t2 = Returns 1 (db\<lparr>global_lock := global_lock db - RC_INCR\<rparr>)"
  using assms
  by (simp add: wg_end_write_def wg_end_read_def atomic_and_def fetch_and_add_def)

theorem simple_end_ignores_token_witness:
  "dbcheck ((segment 1)\<lparr>global_lock := 5\<rparr>)
   \<and> wg_end_write False ((segment 1)\<lparr>global_lock := 5\<rparr>) 0
       = Returns 1 ((segment 1)\<lparr>global_lock := 4\<rparr>)
   \<and> wg_end_write False ((segment 1)\<lparr>global_lock := 5\<rparr>) 12345
       = Returns 1 ((segment 1)\<lparr>global_lock := 4\<rparr>)
   \<and> wg_end_read False ((segment 1)\<lparr>global_lock := 5\<rparr>) 0
       = Returns 1 ((segment 1)\<lparr>global_lock := 3\<rparr>)
   \<and> wg_end_read False ((segment 1)\<lparr>global_lock := 5\<rparr>) 12345
       = Returns 1 ((segment 1)\<lparr>global_lock := 3\<rparr>)"
  using simple_end_ignores_token [of "(segment 1)\<lparr>global_lock := 5\<rparr>" 0 12345]
  by (simp add: segment_def WAFLAG_def RC_INCR_def)

section \<open>Simple locks: mutual exclusion\<close>

lemma of_nat_gint_eq_0:
  assumes "m < 2 ^ 32"
  shows "(of_nat m :: gint) = 0 \<longleftrightarrow> m = 0"
  using assms by (auto simp: word_of_nat_eq_0_iff dest: dvd_imp_le)

lemma of_nat_gint_flag:
  "(of_nat (c + 2 * k) :: gint) AND 1 = 0 \<longleftrightarrow> even c"
  by (simp add: and_one_eq flip: even_iff_mod_2_eq_zero)

lemma clear_flag:
  "(1 + 2 * y :: gint) AND NOT 1 = 2 * y"
  by (rule bit_eqI) (auto simp: bit_and_iff bit_not_iff bit_1_iff even_bit_succ_iff bit_double_iff)

lemma writers_upd:
  "writers \<lparr>shared = d, pcs = (pcs s)(t := p)\<rparr>
   = (if p = S_writing then insert t (writers s) else writers s - {t})"
  by (auto simp: writers_def)

lemma readers_upd:
  "readers \<lparr>shared = d, pcs = (pcs s)(t := p)\<rparr>
   = (if p = S_rwait \<or> p = S_reading then insert t (readers s) else readers s - {t})"
  by (auto simp: readers_def)

lemma reading_upd:
  "{u. pcs \<lparr>shared = d, pcs = (pcs s)(t := p)\<rparr> u = S_reading}
   = (if p = S_reading then insert t {u. pcs s u = S_reading} else {u. pcs s u = S_reading} - {t})"
  by auto


lemma sys_step_noop:
  "step e (pcs s t) (shared s) = (pcs s t, shared s) \<Longrightarrow> sys_step step s (t, e) = s"
  by (simp add: sys_step_def)

lemma simple_inv_step:
  assumes inv: "simple_inv N s" and N: "N < 2 ^ 31" and t: "t < N"
  shows "simple_inv N (sys_step simple_step s (t, e))"
proof -
  let ?W = "writers s" and ?R = "readers s"
  let ?gl = "global_lock (shared s)"
  have v: "dbcheck (shared s)" and sub: "?W \<union> ?R \<subseteq> {..<N}"
    and gl: "?gl = of_nat (card ?W + 2 * card ?R)" and cw: "card ?W \<le> 1"
    and ex: "?W = {} \<or> {u. pcs s u = S_reading} = {}"
    using inv by (simp_all add: simple_inv_def)
  have fin: "finite ?W" "finite ?R"
    using sub by (auto intro: finite_subset)
  have dis: "?W \<inter> ?R = {}"
    by (auto simp: writers_def readers_def)
  have "card ?W + card ?R = card (?W \<union> ?R)"
    using fin dis by (simp add: card_Un_disjoint)
  also have "\<dots> \<le> N"
    using sub by (metis card_lessThan card_mono finite_lessThan)
  finally have cnt: "card ?W + card ?R \<le> N" .
  have bound: "card ?W + 2 * card ?R < 2 ^ 32"
    using cnt N by simp
  have zero: "?gl = 0 \<longleftrightarrow> ?W = {} \<and> ?R = {}"
    using of_nat_gint_eq_0 [OF bound] fin by (simp add: gl)
  have "card ?W = 0 \<or> card ?W = 1"
    using cw by linarith
  then have ev: "even (card ?W) \<longleftrightarrow> ?W = {}"
    using fin by auto
  have flag: "?gl AND 1 = 0 \<longleftrightarrow> ?W = {}"
    unfolding gl of_nat_gint_flag ev ..
  have tin: "t \<in> {..<N}" using t by simp
  have noop: "simple_inv N (sys_step simple_step s (t, e'))"
    if "simple_step e' (pcs s t) (shared s) = (pcs s t, shared s)" for e'
    using sys_step_noop [of simple_step e' s t] that inv by simp
  have write_try: ?thesis
    if p: "pcs s t = S_idle \<or> pcs s t = S_wspin"
      and st: "simple_step e (pcs s t) (shared s)
               = (if ?gl = 0 then (S_writing, (shared s)\<lparr>global_lock := 1\<rparr>)
                  else (S_wspin, shared s))"
  proof (cases "?gl = 0")
    case True
    then have e: "?W = {}" "?R = {}" using zero by simp_all
    then have "{u. pcs s u = S_reading} = {}"
      by (auto simp: readers_def)
    then show ?thesis
      using True v e tin
      by (auto simp: simple_inv_def sys_step_def st writers_upd readers_upd reading_upd)
  next
    case False
    have tW: "t \<notin> ?W" and tR: "t \<notin> ?R"
      using p by (auto simp: writers_def readers_def)
    have "{u. pcs s u = S_reading} - {t} = {u. pcs s u = S_reading}"
      using p by auto
    then show ?thesis
      using False v sub gl cw ex tW tR
      by (auto simp: simple_inv_def sys_step_def st writers_upd readers_upd reading_upd)
  qed
  show ?thesis
  proof (cases "pcs s t")
    case S_idle
    then have tW: "t \<notin> ?W" and tR: "t \<notin> ?R"
      by (auto simp: writers_def readers_def)
    show ?thesis
    proof (cases e)
      case Call_read
      have a: "(of_nat (card ?W + 2 * card ?R) :: gint) + 2 = of_nat (card ?W + 2 * Suc (card ?R))"
        by simp
      have "{u. pcs s u = S_reading} - {t} = {u. pcs s u = S_reading}"
        using S_idle by auto
      then show ?thesis
        using S_idle Call_read v sub cw ex tW tR fin tin a
        by (auto simp: simple_inv_def sys_step_def writers_upd readers_upd reading_upd
            fetch_and_add_def RC_INCR_def gl)
    next
      case Call_write
      show ?thesis
        using S_idle Call_write v
        by (intro write_try)
           (simp_all add: wg_start_write_def spin_write_def compare_and_swap_def WAFLAG_def)
    next
      case Step
      then show ?thesis
        using S_idle by (intro noop) simp
    qed
  next
    case S_wspin
    show ?thesis
    proof (cases e)
      case Step
      show ?thesis
        using S_wspin Step v
        by (intro write_try) (simp_all add: spin_write_def compare_and_swap_def WAFLAG_def)
    qed (use S_wspin in \<open>simp_all add: noop\<close>)
  next
    case S_writing
    then have tW: "t \<in> ?W" and tR: "t \<notin> ?R"
      by (auto simp: writers_def readers_def)
    have "0 < card ?W"
      using tW fin by (auto simp: card_gt_0_iff)
    then have "card ?W = 1"
      using cw by simp
    then obtain x where "?W = {x}"
      by (rule card_1_singletonE)
    then have W: "?W = {t}"
      using tW by auto
    have cf: "?gl AND NOT 1 = of_nat (2 * card ?R)"
      using clear_flag [of "of_nat (card ?R)"] by (simp add: gl W)
    show ?thesis
    proof (cases e)
      case Step
      then show ?thesis
        using S_writing v sub W tR cf
        by (auto simp: simple_inv_def sys_step_def writers_upd readers_upd reading_upd
            wg_end_write_def atomic_and_def WAFLAG_def)
    qed (use S_writing in \<open>simp_all add: noop\<close>)
  next
    case S_rwait
    then have tW: "t \<notin> ?W" and tR: "t \<in> ?R"
      by (auto simp: writers_def readers_def)
    then have ins: "insert t ?R = ?R" by auto
    have rd: "{u. pcs s u = S_reading} - {t} = {u. pcs s u = S_reading}"
      using S_rwait by auto
    show ?thesis
    proof (cases e)
      case Step
      show ?thesis
      proof (cases "?gl AND 1 = 0")
        case True
        then have "?W = {}" using flag by simp
        then show ?thesis
          using S_rwait Step True v sub gl ins
          by (auto simp: simple_inv_def sys_step_def writers_upd readers_upd reading_upd
              spin_read_def WAFLAG_def)
      next
        case False
        then show ?thesis
          using S_rwait Step by (intro noop) (simp add: spin_read_def WAFLAG_def)
      qed
    qed (use S_rwait in \<open>simp_all add: noop\<close>)
  next
    case S_reading
    then have tW: "t \<notin> ?W" and tR: "t \<in> ?R"
      by (auto simp: writers_def readers_def)
    have c: "card ?R = Suc (card (?R - {t}))"
      using fin(2) tR by (rule card.remove)
    have a: "(of_nat (card ?W + 2 * card ?R) :: gint) - 2 = of_nat (card ?W + 2 * card (?R - {t}))"
      by (simp add: c)
    have W: "?W = {}"
      using ex S_reading by auto
    show ?thesis
    proof (cases e)
      case Step
      then show ?thesis
        using S_reading v sub W a
        by (auto simp: simple_inv_def sys_step_def writers_upd readers_upd reading_upd
            wg_end_read_def fetch_and_add_def RC_INCR_def gl)
    qed (use S_reading in \<open>simp_all add: noop\<close>)
  qed
qed


lemma simple_inv_run:
  assumes "N < 2 ^ 31" and "\<forall>x\<in>set sched. fst x < N" and "simple_inv N s"
  shows "simple_inv N (run simple_step sched s)"
  using assms(2,3)
proof (induction sched arbitrary: s)
  case Nil
  then show ?case by (simp add: run_def)
next
  case (Cons x sched)
  have "simple_inv N (sys_step simple_step s (fst x, snd x))"
    using Cons.prems by (intro simple_inv_step assms(1)) simp_all
  then have "simple_inv N (run simple_step sched (sys_step simple_step s x))"
    using Cons.IH Cons.prems(1) by simp
  then show ?case by (simp add: run_def)
qed

lemma simple_inv_idle:
  assumes "dbcheck db" and "global_lock db = 0"
  shows "simple_inv N \<lparr>shared = db, pcs = (\<lambda>_. S_idle)\<rparr>"
  using assms by (simp add: simple_inv_def writers_def readers_def)

text \<open>
  With the simple locks the property of C1 holds: in every interleaved execution of
  fewer than \<open>2 ^ 31\<close> threads from a valid segment whose sync word is 0, at most one
  thread is between the return of \<open>wg_start_write\<close> and its \<open>wg_end_write\<close>, and
  while there is one, no thread is between the return of \<open>wg_start_read\<close> and its
  \<open>wg_end_read\<close>. (The bound keeps the reader count from wrapping around.)
\<close>

lemma simple_locks_mutual_exclusion:
  assumes "N < 2 ^ 31" and "dbcheck db" and "global_lock db = 0"
    and "\<forall>x\<in>set sched. fst x < N"
  shows "card {t. pcs (run simple_step sched \<lparr>shared = db, pcs = (\<lambda>_. S_idle)\<rparr>) t = S_writing} \<le> 1
       \<and> ({t. pcs (run simple_step sched \<lparr>shared = db, pcs = (\<lambda>_. S_idle)\<rparr>) t = S_writing} = {}
          \<or> {t. pcs (run simple_step sched \<lparr>shared = db, pcs = (\<lambda>_. S_idle)\<rparr>) t = S_reading} = {})"
  using simple_inv_run [OF assms(1,4) simple_inv_idle [OF assms(2,3)]]
  by (simp add: simple_inv_def writers_def)

section \<open>Invalid handles\<close>

text \<open>
  C9, as the code has it. On a handle that fails \<open>dbcheck\<close>, the four transaction
  functions return 0 and \<open>init_lock_queue\<close> returns -1, with either kind of locks; none
  of them changes the shared state.
\<close>

theorem invalid_handle_no_effect:
  assumes "\<not> dbcheck db"
  shows "init_lock_queue pad db = Some (- 1, db)
       \<and> wg_start_read q db = Returns 0 db
       \<and> wg_end_read q db lock = Returns 0 db
       \<and> wg_start_write q db = Returns 0 db
       \<and> wg_end_write q db lock = Returns 0 db"
  using assms
  by (simp add: init_lock_queue_def wg_start_read_def wg_end_read_def wg_start_write_def
      wg_end_write_def)

theorem invalid_handle_no_effect_witness:
  "\<not> dbcheck ((segment 2)\<lparr>dbcheck := False\<rparr>)
   \<and> init_lock_queue 128 ((segment 2)\<lparr>dbcheck := False\<rparr>)
       = Some (- 1, (segment 2)\<lparr>dbcheck := False\<rparr>)
   \<and> wg_start_read True ((segment 2)\<lparr>dbcheck := False\<rparr>)
       = Returns 0 ((segment 2)\<lparr>dbcheck := False\<rparr>)
   \<and> wg_end_read True ((segment 2)\<lparr>dbcheck := False\<rparr>) 1024
       = Returns 0 ((segment 2)\<lparr>dbcheck := False\<rparr>)
   \<and> wg_start_write True ((segment 2)\<lparr>dbcheck := False\<rparr>)
       = Returns 0 ((segment 2)\<lparr>dbcheck := False\<rparr>)
   \<and> wg_end_write True ((segment 2)\<lparr>dbcheck := False\<rparr>) 1024
       = Returns 0 ((segment 2)\<lparr>dbcheck := False\<rparr>)"
  using invalid_handle_no_effect [of "(segment 2)\<lparr>dbcheck := False\<rparr>" 128 True 1024]
  by (simp add: segment_def)

text \<open>
  The claim C9 as stated fails for \<open>init_lock_queue\<close>: on an invalid handle it returns
  -1, which is not 0.
\<close>

theorem init_lock_queue_invalid_counterexample:
  "\<not> dbcheck ((segment 2)\<lparr>dbcheck := False\<rparr>)
   \<and> map_option fst (init_lock_queue 128 ((segment 2)\<lparr>dbcheck := False\<rparr>)) = Some (- 1)
   \<and> map_option fst (init_lock_queue 128 ((segment 2)\<lparr>dbcheck := False\<rparr>)) \<noteq> Some 0"
  by (simp add: init_lock_queue_def segment_def)

section \<open>Queued locks: the last reader\<close>

lemma free_lock_frame:
  "next_writer (free_lock db node) = next_writer db
   \<and> reader_count (free_lock db node) = reader_count db
   \<and> state_q (nodes (free_lock db node) c) = state_q (nodes db c)"
  by (simp add: free_lock_closed)

lemma end_read_pre_frame:
  "reader_count (end_read_pre lock db) = reader_count db
   \<and> nodes (end_read_pre lock db) = nodes db
   \<and> next_writer (end_read_pre lock db)
       = (if fst (end_succ_test lock db) \<and> state_q (nodes db lock) AND LOCKQ_WRITE \<noteq> 0
          then next_q (nodes db lock) else next_writer db)"
  by (simp add: end_read_pre_def end_succ_test_def end_read_set_writer_def compare_and_swap_def
      Let_def)

lemma handoff_step:
  "reader_count (end_read_handoff db) = reader_count db - 1
   \<and> (fst (end_read_decr db) = 1 \<longrightarrow>
        next_writer (end_read_handoff db) = 0
        \<and> (next_writer db \<noteq> 0 \<longrightarrow>
             nodes (end_read_handoff db)
               = (nodes db)(next_writer db :=
                   (nodes db (next_writer db))
                     \<lparr>state_q := state_q (nodes db (next_writer db)) AND NOT 1\<rparr>))
        \<and> (next_writer db = 0 \<longrightarrow> nodes (end_read_handoff db) = nodes db))
   \<and> (fst (end_read_decr db) \<noteq> 1 \<longrightarrow>
        next_writer (end_read_handoff db) = next_writer db
        \<and> nodes (end_read_handoff db) = nodes db)"
  by (simp add: end_read_handoff_def end_read_decr_def end_read_unblock_writer_def
      fetch_and_add_def fetch_and_store_def atomic_and_def set_node_def Let_def)

lemma end_read_decr_fst: "fst (end_read_decr db) = reader_count db"
  by (simp add: end_read_decr_def fetch_and_add_def Let_def)

text \<open>
  C6. In \<open>wg_end_read\<close> with queued locks, lines 721-730: the fetch-and-add takes 1
  from \<open>reader_count\<close>. Exactly when it returned 1, \<open>next_writer\<close> is exchanged with
  0, and if the value \<open>w\<close> taken out is not 0, bit 0 of the state word of node \<open>w\<close> is
  cleared and nothing else of any node changes (with \<open>w = 0\<close> no node changes). When
  it returned another value, \<open>next_writer\<close> and all nodes are left as they were.

  For the whole call: when \<open>wg_end_read\<close> on a valid handle \<open>db\<close> returns, it returns 1
  and has run this step in the state \<open>end_read_pre lock db\<close> that lines 710-720 left,
  which has the reader count and the nodes of \<open>db\<close> and as \<open>next_writer\<close> either the
  successor registered in line 719 or the \<open>next_writer\<close> of \<open>db\<close>; after the step only
  \<open>free_lock\<close> ran. So \<open>reader_count\<close> is one less than in \<open>db\<close>. If it was 1,
  \<open>next_writer\<close> is 0 afterwards and the state words are those of \<open>db\<close> but for bit 0
  of the node that was next writer, when there was one; if it was not 1, \<open>next_writer\<close>
  is the one lines 710-720 left and every state word is as in \<open>db\<close>.
\<close>

theorem end_read_last_reader_handoff:
  "reader_count (end_read_handoff db) = reader_count db - 1
   \<and> (fst (end_read_decr db) = 1 \<longrightarrow>
        next_writer (end_read_handoff db) = 0
        \<and> (next_writer db \<noteq> 0 \<longrightarrow>
             nodes (end_read_handoff db)
               = (nodes db)(next_writer db :=
                   (nodes db (next_writer db))
                     \<lparr>state_q := state_q (nodes db (next_writer db)) AND NOT 1\<rparr>))
        \<and> (next_writer db = 0 \<longrightarrow> nodes (end_read_handoff db) = nodes db))
   \<and> (fst (end_read_decr db) \<noteq> 1 \<longrightarrow>
        next_writer (end_read_handoff db) = next_writer db
        \<and> nodes (end_read_handoff db) = nodes db)
   \<and> (dbcheck db \<and> wg_end_read True db lock = Returns r db' \<longrightarrow>
        r = 1
        \<and> db' = free_lock (end_read_handoff (end_read_pre lock db)) lock
        \<and> reader_count (end_read_pre lock db) = reader_count db
        \<and> nodes (end_read_pre lock db) = nodes db
        \<and> next_writer (end_read_pre lock db)
            = (if fst (end_succ_test lock db) \<and> state_q (nodes db lock) AND LOCKQ_WRITE \<noteq> 0
               then next_q (nodes db lock) else next_writer db)
        \<and> reader_count db' = reader_count db - 1
        \<and> (reader_count db = 1 \<longrightarrow>
             next_writer db' = 0
             \<and> (\<forall>c. state_q (nodes db' c)
                      = (if c = next_writer (end_read_pre lock db) \<and> c \<noteq> 0
                         then state_q (nodes db c) AND NOT 1 else state_q (nodes db c))))
        \<and> (reader_count db \<noteq> 1 \<longrightarrow>
             next_writer db' = next_writer (end_read_pre lock db)
             \<and> (\<forall>c. state_q (nodes db' c) = state_q (nodes db c))))"
proof -
  have call: "r = 1
        \<and> db' = free_lock (end_read_handoff (end_read_pre lock db)) lock
        \<and> reader_count (end_read_pre lock db) = reader_count db
        \<and> nodes (end_read_pre lock db) = nodes db
        \<and> next_writer (end_read_pre lock db)
            = (if fst (end_succ_test lock db) \<and> state_q (nodes db lock) AND LOCKQ_WRITE \<noteq> 0
               then next_q (nodes db lock) else next_writer db)
        \<and> reader_count db' = reader_count db - 1
        \<and> (reader_count db = 1 \<longrightarrow>
             next_writer db' = 0
             \<and> (\<forall>c. state_q (nodes db' c)
                      = (if c = next_writer (end_read_pre lock db) \<and> c \<noteq> 0
                         then state_q (nodes db c) AND NOT 1 else state_q (nodes db c))))
        \<and> (reader_count db \<noteq> 1 \<longrightarrow>
             next_writer db' = next_writer (end_read_pre lock db)
             \<and> (\<forall>c. state_q (nodes db' c) = state_q (nodes db c)))"
    if v: "dbcheck db" and ret: "wg_end_read True db lock = Returns r db'"
  proof -
    let ?pre = "end_read_pre lock db"
    let ?h = "end_read_handoff ?pre"
    have r: "r = 1" and d: "db' = free_lock ?h lock"
      using v ret by (simp_all add: wg_end_read_def end_read_pre_def Let_def split: if_splits)
    note pf = end_read_pre_frame [of lock db]
    note hs = handoff_step [of ?pre]
    have fr: "next_writer db' = next_writer ?h" "reader_count db' = reader_count ?h"
      "\<And>c. state_q (nodes db' c) = state_q (nodes ?h c)"
      unfolding d using free_lock_frame by simp_all
    have rc: "reader_count db' = reader_count db - 1"
      using fr(2) hs pf by simp
    have last: "next_writer db' = 0
             \<and> (\<forall>c. state_q (nodes db' c)
                      = (if c = next_writer ?pre \<and> c \<noteq> 0
                         then state_q (nodes db c) AND NOT 1 else state_q (nodes db c)))"
      if "reader_count db = 1"
    proof -
      have one: "fst (end_read_decr ?pre) = 1"
        using that pf by (simp add: end_read_decr_fst)
      show ?thesis
      proof (cases "next_writer ?pre = 0")
        case True
        then have "nodes ?h = nodes db" "next_writer ?h = 0"
          using hs one pf by simp_all
        then show ?thesis
          using fr True by auto
      next
        case False
        then have "nodes ?h = (nodes db)(next_writer ?pre :=
                   (nodes db (next_writer ?pre))
                     \<lparr>state_q := state_q (nodes db (next_writer ?pre)) AND NOT 1\<rparr>)"
          and "next_writer ?h = 0"
          using hs one pf by simp_all
        then show ?thesis
          using fr False by auto
      qed
    qed
    have other: "next_writer db' = next_writer ?pre
             \<and> (\<forall>c. state_q (nodes db' c) = state_q (nodes db c))"
      if "reader_count db \<noteq> 1"
    proof -
      have "fst (end_read_decr ?pre) \<noteq> 1"
        using that pf by (simp add: end_read_decr_fst)
      then have "nodes ?h = nodes db" "next_writer ?h = next_writer ?pre"
        using hs pf by simp_all
      then show ?thesis
        using fr by simp
    qed
    show ?thesis
      using r d pf rc last other by blast
  qed
  show ?thesis
    using handoff_step [of db] call by blast
qed

theorem end_read_last_reader_handoff_witness:
  "dbcheck last_reader_segment
   \<and> wg_end_read True last_reader_segment 1024
       = Returns 1 (state_after (wg_end_read True last_reader_segment 1024))
   \<and> reader_count last_reader_segment = 1
   \<and> fst (end_read_decr last_reader_segment) = 1
   \<and> next_writer (end_read_pre 1024 last_reader_segment) = 1152
   \<and> state_q (nodes last_reader_segment 1152) = 1
   \<and> reader_count (state_after (wg_end_read True last_reader_segment 1024)) = 0
   \<and> next_writer (state_after (wg_end_read True last_reader_segment 1024)) = 0
   \<and> state_q (nodes (state_after (wg_end_read True last_reader_segment 1024)) 1152) = 0
   \<and> state_q (nodes (state_after (wg_end_read True last_reader_segment 1024)) 1024) = LOCKQ_WRITE
   \<and> dbcheck (last_reader_segment\<lparr>reader_count := 2\<rparr>)
   \<and> wg_end_read True (last_reader_segment\<lparr>reader_count := 2\<rparr>) 1024
       = Returns 1 (state_after (wg_end_read True (last_reader_segment\<lparr>reader_count := 2\<rparr>) 1024))
   \<and> reader_count (state_after (wg_end_read True (last_reader_segment\<lparr>reader_count := 2\<rparr>) 1024)) = 1
   \<and> next_writer (state_after (wg_end_read True (last_reader_segment\<lparr>reader_count := 2\<rparr>) 1024)) = 1152
   \<and> state_q (nodes (state_after (wg_end_read True (last_reader_segment\<lparr>reader_count := 2\<rparr>) 1024)) 1152) = 1"
proof -
  let ?s = last_reader_segment
  let ?s2 = "last_reader_segment\<lparr>reader_count := 2\<rparr>"
  let ?d = "state_after (wg_end_read True ?s 1024)"
  let ?d2 = "state_after (wg_end_read True ?s2 1024)"
  have h: "dbcheck ?s" "reader_count ?s = 1" "state_q (nodes ?s 1152) = 1"
    "state_q (nodes ?s 1024) = LOCKQ_WRITE" "fst (end_read_decr ?s) = 1"
    "fst (end_succ_test 1024 ?s)" "next_q (nodes ?s 1024) = 1152"
    by (simp_all add: last_reader_segment_def segment_def end_read_decr_def fetch_and_add_def
        end_succ_test_def)
  have h2: "dbcheck ?s2" "reader_count ?s2 = 2" "state_q (nodes ?s2 1152) = 1"
    "state_q (nodes ?s2 1024) = LOCKQ_WRITE"
    "fst (end_succ_test 1024 ?s2)" "next_q (nodes ?s2 1024) = 1152"
    by (simp_all add: last_reader_segment_def segment_def end_succ_test_def)
  have e: "wg_end_read True ?s 1024 = Returns 1 ?d"
    by (rule outcome_eq) code_simp
  have e2: "wg_end_read True ?s2 1024 = Returns 1 ?d2"
    by (rule outcome_eq) code_simp
  have t1: "next_writer (end_read_pre 1024 ?s) = 1152 \<and> reader_count ?d = 0
            \<and> next_writer ?d = 0 \<and> state_q (nodes ?d 1152) = 0
            \<and> state_q (nodes ?d 1024) = LOCKQ_WRITE"
    using end_read_last_reader_handoff [of ?s 1024 1 ?d] h e
    by (simp add: LOCKQ_WRITE_def)
  have t2: "reader_count ?d2 = 1 \<and> next_writer ?d2 = 1152 \<and> state_q (nodes ?d2 1152) = 1"
    using end_read_last_reader_handoff [of ?s2 1024 1 ?d2] h2 e2
    by (simp add: LOCKQ_WRITE_def)
  show ?thesis
    using h h2 e e2 t1 t2 by simp
qed

end
